theory Spec2Isabelle
  imports Complex_Main "HOL-Library.Char_ord"
begin

section \<open>Strings\<close>

text \<open>
  A Python \<open>str\<close> is modelled as a \<^typ>\<open>string\<close>: a list of characters, each character
  a code point below 256, so that \<^const>\<open>length\<close> is Python's \<open>len\<close>. On these code points
  \<open>str.isspace\<close>, and with it \<open>str.strip()\<close> and the class \<open>\s\<close> of \<open>re\<close> on \<open>str\<close>
  patterns, holds of TAB, LF, VT, FF, CR, the separators 0x1C to 0x1F, the space, NEL
  (0x85) and the no-break space (0xA0); \<open>\d\<close> holds of the ten ASCII digits only.
\<close>

definition is_space :: "char \<Rightarrow> bool" where
  "is_space c =
     (let n = (of_char c :: nat)
      in (9 \<le> n \<and> n \<le> 13) \<or> (28 \<le> n \<and> n \<le> 32) \<or> n = 133 \<or> n = 160)"

definition is_digit :: "char \<Rightarrow> bool" where
  "is_digit c = (CHR ''0'' \<le> c \<and> c \<le> CHR ''9'')"

text \<open>\<open>s.strip()\<close>: whitespace removed at both ends.\<close>

definition strip :: "string \<Rightarrow> string" where
  "strip s = rev (dropWhile is_space (rev (dropWhile is_space s)))"

text \<open>\<open>' '.join(xs)\<close>.\<close>

fun join_space :: "string list \<Rightarrow> string" where
  "join_space [] = []"
| "join_space [x] = x"
| "join_space (x # y # ys) = x @ CHR '' '' # join_space (y # ys)"

text \<open>
  \<open>s.split('\n')\<close>: the pieces between the newlines; a string without a newline, the
  empty one too, is one piece.
\<close>

fun split_newline :: "string \<Rightarrow> string list" where
  "split_newline [] = [[]]"
| "split_newline (c # cs) =
     (if c = CHR 0x0A then [] # split_newline cs
      else (case split_newline cs of
              [] \<Rightarrow> [[c]]
            | l # ls \<Rightarrow> (c # l) # ls))"

text \<open>Truth value of an \<open>Optional[str]\<close>: \<open>None\<close> and \<open>""\<close> are false.\<close>

fun truthy :: "string option \<Rightarrow> bool" where
  "truthy None = False"
| "truthy (Some s) = (s \<noteq> [])"

text \<open>\<open>str(n)\<close> of a non-negative integer.\<close>

fun str_nat :: "nat \<Rightarrow> string" where
  "str_nat n =
     (if n < 10 then [''0123456789'' ! n]
      else str_nat (n div 10) @ [''0123456789'' ! (n mod 10)])"

declare str_nat.simps [simp del]

section \<open>Regular expressions\<close>

text \<open>
  The patterns of the program are sequences of greedy repetitions of one character class,
  one capturing group and the anchors \<open>^\<close> and \<open>$\<close>, the anchors only under
  \<open>re.MULTILINE\<close>. A pattern is the list of its items in the order they are written.
\<close>

datatype cclass =
    Lit char
  | Range char char
  | Digit
  | Space
  | Union cclass cclass

fun in_class :: "cclass \<Rightarrow> char \<Rightarrow> bool" where
  "in_class (Lit a) c = (c = a)"
| "in_class (Range a b) c = (a \<le> c \<and> c \<le> b)"
| "in_class Digit c = is_digit c"
| "in_class Space c = is_space c"
| "in_class (Union x y) c = (in_class x c \<or> in_class y c)"

datatype quant = One | Opt | Star | Plus

fun min_count :: "quant \<Rightarrow> nat" where
  "min_count One = 1"
| "min_count Opt = 0"
| "min_count Star = 0"
| "min_count Plus = 1"

text \<open>The most characters a repetition takes, of the \<open>n\<close> that are available.\<close>

fun max_count :: "quant \<Rightarrow> nat \<Rightarrow> nat" where
  "max_count One n = min 1 n"
| "max_count Opt n = min 1 n"
| "max_count Star n = n"
| "max_count Plus n = n"

datatype item =
    Rep quant cclass
  | GroupOpen
  | GroupClose
  | Bol
  | Eol

type_synonym pattern = "item list"

text \<open>
  Backtracking of a greedy repetition: the longest count first, then one character less
  at a time down to the least count; the first count the rest of the pattern accepts wins.
\<close>

primrec first_fit :: "(nat \<Rightarrow> 'a option) \<Rightarrow> nat \<Rightarrow> nat \<Rightarrow> 'a option" where
  "first_fit f lo 0 = f lo"
| "first_fit f lo (Suc d) =
     (case f (lo + Suc d) of
        Some r \<Rightarrow> Some r
      | None \<Rightarrow> first_fit f lo d)"

text \<open>
  \<open>re_items p prev s\<close> matches the pattern \<open>p\<close> at the head of \<open>s\<close>, where \<open>prev\<close> is the
  character before \<open>s\<close> in the subject (\<open>None\<close> at its start). A match is the text each
  item consumed, in order, and the rest of the subject after the match.
\<close>

primrec re_items :: "pattern \<Rightarrow> char option \<Rightarrow> string \<Rightarrow> (string list \<times> string) option" where
  "re_items [] = (\<lambda>prev s. Some ([], s))"
| "re_items (it # its) = (\<lambda>prev s.
     (case it of
        Rep q c \<Rightarrow>
          (let n = length (takeWhile (in_class c) s);
               lo = min_count q;
               hi = max_count q n
           in if hi < lo then None
              else first_fit
                     (\<lambda>k. case re_items its (if k = 0 then prev else Some (s ! (k - 1))) (drop k s) of
                             None \<Rightarrow> None
                           | Some (segs, rest) \<Rightarrow> Some (take k s # segs, rest))
                     lo (hi - lo))
      | Bol \<Rightarrow>
          (if prev = None \<or> prev = Some (CHR 0x0A)
           then map_option (\<lambda>(segs, rest). ([] # segs, rest)) (re_items its prev s)
           else None)
      | Eol \<Rightarrow>
          (if s = [] \<or> hd s = CHR 0x0A
           then map_option (\<lambda>(segs, rest). ([] # segs, rest)) (re_items its prev s)
           else None)
      | _ \<Rightarrow> map_option (\<lambda>(segs, rest). ([] # segs, rest)) (re_items its prev s)))"

text \<open>\<open>m.group(1)\<close>: what the items between the parentheses consumed.\<close>

definition group1 :: "pattern \<Rightarrow> string list \<Rightarrow> string" where
  "group1 p segs =
     concat (map snd (takeWhile (\<lambda>x. fst x \<noteq> GroupClose)
                        (tl (dropWhile (\<lambda>x. fst x \<noteq> GroupOpen) (zip p segs)))))"

text \<open>
  \<open>re.match(p, line, re.MULTILINE)\<close> followed by \<open>.group(1)\<close>: the match is tried at the
  start of the line only.
\<close>

definition re_match_group :: "pattern \<Rightarrow> string \<Rightarrow> string option" where
  "re_match_group p line = map_option (\<lambda>(segs, rest). group1 p segs) (re_items p None line)"

text \<open>
  \<open>re.sub(p, repl, text, count)\<close> with a literal replacement: the subject is scanned from
  the left; a match is replaced and the scan goes on behind it; an empty match is replaced
  and the next character copied; where nothing matches the character is copied. With
  \<open>count \<noteq> 0\<close> the scan stops replacing after \<open>count\<close> replacements. \<open>n\<close> counts the
  replacements made so far.
\<close>

function sub_scan :: "pattern \<Rightarrow> string \<Rightarrow> nat \<Rightarrow> nat \<Rightarrow> char option \<Rightarrow> string \<Rightarrow> string" where
  "sub_scan p repl count n prev s =
     (if count \<noteq> 0 \<and> count \<le> n then s
      else (case re_items p prev s of
              Some (segs, rest) \<Rightarrow>
                (if length rest < length s
                 then repl @ sub_scan p repl count (Suc n) (Some (last (concat segs))) rest
                 else (case s of
                         [] \<Rightarrow> repl
                       | c # cs \<Rightarrow> repl @ c # sub_scan p repl count (Suc n) (Some c) cs))
            | None \<Rightarrow>
                (case s of
                   [] \<Rightarrow> []
                 | c # cs \<Rightarrow> c # sub_scan p repl count n (Some c) cs)))"
  by pat_completeness auto
termination
  by (relation "measure (\<lambda>(p, repl, count, n, prev, s). length s)") auto

declare sub_scan.simps [simp del]

definition re_sub :: "pattern \<Rightarrow> string \<Rightarrow> string \<Rightarrow> nat \<Rightarrow> string" where
  "re_sub p repl text count = sub_scan p repl count 0 None text"

section \<open>The text cleaner\<close>

text \<open>\<open>\s+\<close>\<close>

definition whitespace_run :: pattern where
  "whitespace_run = [Rep Plus Space]"

text \<open>\<open>\n\s*\d+\s*\n\<close>\<close>

definition page_number_line :: pattern where
  "page_number_line =
     [Rep One (Lit (CHR 0x0A)), Rep Star Space, Rep Plus Digit, Rep Star Space,
      Rep One (Lit (CHR 0x0A))]"

text \<open>\<open>\n\s*Page \d+ of \d+\s*\n\<close>\<close>

definition page_of_line :: pattern where
  "page_of_line =
     [Rep One (Lit (CHR 0x0A)), Rep Star Space] @
     map (\<lambda>c. Rep One (Lit c)) ''Page '' @
     [Rep Plus Digit] @
     map (\<lambda>c. Rep One (Lit c)) '' of '' @
     [Rep Plus Digit, Rep Star Space, Rep One (Lit (CHR 0x0A))]"

text \<open>
  \<open>clean_text\<close>. The third \<open>re.sub\<close> is given \<open>re.IGNORECASE\<close> in the position of \<open>count\<close>:
  the pattern stays case sensitive and at most \<open>int(re.IGNORECASE) = 2\<close> matches are
  replaced.
\<close>

definition clean_text :: "string \<Rightarrow> string" where
  "clean_text text =
     (if text = [] then []
      else (let t1 = re_sub whitespace_run '' '' text 0;
                t2 = re_sub page_number_line ''\<newline>'' t1 0;
                t3 = re_sub page_of_line ''\<newline>'' t2 2
            in strip t3))"

section \<open>The heading classifier\<close>

definition upper :: cclass where
  "upper = Range (CHR ''A'') (CHR ''Z'')"

definition lower :: cclass where
  "lower = Range (CHR ''a'') (CHR ''z'')"

text \<open>\<open>[A-Za-z]\<close> and \<open>[A-Za-z\s]\<close>\<close>

definition letter :: cclass where
  "letter = Union upper lower"

definition letter_or_space :: cclass where
  "letter_or_space = Union upper (Union lower Space)"

text \<open>
  \<open>section_patterns\<close>, in the order of the source:
  \<^verbatim>\<open>^\s*(\d+\.?\s*[A-Z][A-Za-z\s]+)\<close>,
  \<^verbatim>\<open>^\s*([A-Z][A-Z\s]+)\s*$\<close>,
  \<^verbatim>\<open>^\s*([A-Z][a-z][A-Za-z\s]+)\s*$\<close>.
\<close>

definition section_patterns :: "pattern list" where
  "section_patterns =
     [[Bol, Rep Star Space, GroupOpen, Rep Plus Digit, Rep Opt (Lit (CHR ''.'')), Rep Star Space,
       Rep One upper, Rep Plus letter_or_space, GroupClose],
      [Bol, Rep Star Space, GroupOpen, Rep One upper, Rep Plus (Union upper Space), GroupClose,
       Rep Star Space, Eol],
      [Bol, Rep Star Space, GroupOpen, Rep One upper, Rep One lower, Rep Plus letter_or_space,
       GroupClose, Rep Star Space, Eol]]"

text \<open>
  \<open>subsection_patterns\<close>:
  \<^verbatim>\<open>^\s*(\d+\.\d+\.?\s*[A-Za-z][A-Za-z\s]+)\<close>,
  \<^verbatim>\<open>^\s*([a-z]\.\s*[A-Za-z][A-Za-z\s]+)\<close>,
  \<^verbatim>\<open>^\s*([A-Z][a-z][A-Za-z\s]+)\s*$\<close>.
\<close>

definition subsection_patterns :: "pattern list" where
  "subsection_patterns =
     [[Bol, Rep Star Space, GroupOpen, Rep Plus Digit, Rep One (Lit (CHR ''.'')), Rep Plus Digit,
       Rep Opt (Lit (CHR ''.'')), Rep Star Space, Rep One letter, Rep Plus letter_or_space,
       GroupClose],
      [Bol, Rep Star Space, GroupOpen, Rep One lower, Rep One (Lit (CHR ''.'')), Rep Star Space,
       Rep One letter, Rep Plus letter_or_space, GroupClose],
      [Bol, Rep Star Space, GroupOpen, Rep One upper, Rep One lower, Rep Plus letter_or_space,
       GroupClose, Rep Star Space, Eol]]"

text \<open>
  The loop over the section patterns on one line: the first pattern that matches while
  \<open>section\<close> is false sets it and leaves the loop.
\<close>

fun check_section :: "pattern list \<Rightarrow> string \<Rightarrow> string option \<Rightarrow> string option" where
  "check_section [] line section = section"
| "check_section (p # ps) line section =
     (case re_match_group p line of
        Some g \<Rightarrow> (if \<not> truthy section then Some (strip g) else check_section ps line section)
      | None \<Rightarrow> check_section ps line section)"

text \<open>
  The loop over the sub-section patterns on the same line, after the one above: a match
  counts only while \<open>sub_section\<close> is false and \<open>section\<close> is true.
\<close>

fun check_subsection ::
  "pattern list \<Rightarrow> string \<Rightarrow> string option \<Rightarrow> string option \<Rightarrow> string option" where
  "check_subsection [] line section sub_section = sub_section"
| "check_subsection (p # ps) line section sub_section =
     (case re_match_group p line of
        Some g \<Rightarrow>
          (if \<not> truthy sub_section \<and> truthy section then Some (strip g)
           else check_subsection ps line section sub_section)
      | None \<Rightarrow> check_subsection ps line section sub_section)"

text \<open>The loop over the lines; a line that is empty once stripped is passed over.\<close>

fun scan_lines ::
  "string list \<Rightarrow> string option \<Rightarrow> string option \<Rightarrow> string option \<times> string option" where
  "scan_lines [] section sub_section = (section, sub_section)"
| "scan_lines (l # ls) section sub_section =
     (let line = strip l
      in if line = [] then scan_lines ls section sub_section
         else (let section' = check_section section_patterns line section;
                   sub_section' = check_subsection subsection_patterns line section' sub_section
               in scan_lines ls section' sub_section'))"

text \<open>\<open>lines[:5]\<close> is \<open>take 5 lines\<close>.\<close>

definition extract_sections_and_subsections :: "string \<Rightarrow> string option \<times> string option" where
  "extract_sections_and_subsections text =
     scan_lines (take 5 (split_newline text)) None None"

section \<open>Pages and content blocks\<close>

text \<open>
  The page decoder gives characters and images as dictionaries. A key is modelled as a
  field that may be absent: \<open>d.get(k, v)\<close> is \<open>get_default\<close>, and \<open>d[k]\<close> raises
  \<open>KeyError\<close> on an absent key. A coordinate or a size is a finite \<open>float\<close>, a
  double, given by its exact value, which is a rational.
\<close>

datatype error = KeyError | FileNotFoundError

record pchar =
  char_y0 :: "rat option"
  char_text :: "string option"

record image =
  img_width :: "rat option"
  img_height :: "rat option"
  img_x0 :: "rat option"
  img_y0 :: "rat option"
  img_x1 :: "rat option"
  img_y1 :: "rat option"

record page =
  chars :: "pchar list"
  images :: "image list"

definition get_default :: "'a option \<Rightarrow> 'a \<Rightarrow> 'a" where
  "get_default v d = (case v of None \<Rightarrow> d | Some x \<Rightarrow> x)"

text \<open>
  A content block: the heading context (the keys \<open>section\<close> and \<open>sub_section\<close>) and
  what belongs to its type: the text of a
  paragraph; the description and the rows of a table; the description, the (empty) rows
  and the width and height of a chart.
\<close>

datatype payload =
    Paragraph string
  | Table string "string list list"
  | Chart string "string list list" rat rat

record content_block =
  b_section :: "string option"
  b_sub_section :: "string option"
  payload :: payload

datatype level = INFO | WARNING

type_synonym log = "(level \<times> string) list"

section \<open>Double precision\<close>

text \<open>
  The arithmetic of the program on coordinates is that of IEEE 754 doubles: the result
  of an operation is the exact result rounded to the nearest double, a tie to the double
  with the even significand. A double is \<open>m * 2 ^ e\<close> with a significand \<open>m\<close> of at most
  53 bits and \<open>e \<ge> -1074\<close>. The program only compares the results of its subtractions
  with 20 and with 50, so a result beyond the largest double, which is infinite in the
  program, may stay the large number it is here.
\<close>

text \<open>The number of binary digits of \<open>n\<close>.\<close>

fun bit_length :: "nat \<Rightarrow> nat" where
  "bit_length n = (if n = 0 then 0 else Suc (bit_length (n div 2)))"

declare bit_length.simps [simp del]

definition pow2 :: "int \<Rightarrow> rat" where
  "pow2 e = (if 0 \<le> e then 2 ^ nat e else 1 / 2 ^ nat (- e))"

text \<open>The integer part of the binary logarithm of \<open>x > 0\<close>.\<close>

definition floor_log2 :: "rat \<Rightarrow> int" where
  "floor_log2 x =
     (if 1 \<le> x then int (bit_length (nat \<lfloor>x\<rfloor>)) - 1
      else (let k = int (bit_length (nat \<lfloor>1 / x\<rfloor>)) - 1
            in if 1 / x = pow2 k then - k else - k - 1))"

text \<open>The nearest integer, a tie to the even one.\<close>

definition half_even :: "rat \<Rightarrow> int" where
  "half_even t =
     (let f = \<lfloor>t\<rfloor>;
          d = t - of_int f
      in if d < 1 / 2 then f
         else if 1 / 2 < d then f + 1
         else if even f then f else f + 1)"

text \<open>The nearest double.\<close>

definition rnd64 :: "rat \<Rightarrow> rat" where
  "rnd64 x =
     (if x = 0 then 0
      else (let e = max (floor_log2 \<bar>x\<bar> - 52) (- 1074)
            in sgn x * of_int (half_even (\<bar>x\<bar> / pow2 e)) * pow2 e))"

text \<open>\<open>a - b\<close> on doubles.\<close>

definition fsub :: "rat \<Rightarrow> rat \<Rightarrow> rat" where
  "fsub a b = rnd64 (a - b)"

text \<open>The double that a decimal literal such as \<open>32.2\<close> denotes.\<close>

definition float_literal :: "rat \<Rightarrow> rat" where
  "float_literal d = rnd64 d"

section \<open>The paragraph segmenter\<close>

text \<open>
  \<open>round(y, 1)\<close>: the exact value of \<open>y\<close> is rounded to the nearest tenth, a tie to the
  even tenth, and the result is the double nearest to that tenth.
\<close>

definition round1 :: "rat \<Rightarrow> rat" where
  "round1 y = rnd64 (of_int (half_even (y * 10)) / 10)"

text \<open>
  \<open>lines\<close> is a dictionary from the rounded coordinate to the characters of the line; it
  keeps the keys in the order they were first stored.
\<close>

fun add_to_line :: "rat \<Rightarrow> pchar \<Rightarrow> (rat \<times> pchar list) list \<Rightarrow> (rat \<times> pchar list) list" where
  "add_to_line y c [] = [(y, [c])]"
| "add_to_line y c ((k, cs) # ls) =
     (if k = y then (k, cs @ [c]) # ls else (k, cs) # add_to_line y c ls)"

fun group_lines ::
  "pchar list \<Rightarrow> (rat \<times> pchar list) list \<Rightarrow> error + (rat \<times> pchar list) list" where
  "group_lines [] lines = Inr lines"
| "group_lines (c # cs) lines =
     (case char_y0 c of
        None \<Rightarrow> Inl KeyError
      | Some v \<Rightarrow> group_lines cs (add_to_line (round1 v) c lines))"

text \<open>\<open>''.join([char['text'] for char in chars])\<close>\<close>

fun join_texts :: "pchar list \<Rightarrow> error + string" where
  "join_texts [] = Inr []"
| "join_texts (c # cs) =
     (case char_text c of
        None \<Rightarrow> Inl KeyError
      | Some t \<Rightarrow> (case join_texts cs of Inl e \<Rightarrow> Inl e | Inr r \<Rightarrow> Inr (t @ r)))"

text \<open>
  Flushing the buffer \<open>current_paragraph\<close>: the source has this code twice, inside the
  loop and after it.
\<close>

definition flush_paragraph :: "content_block list \<Rightarrow> string list \<Rightarrow> content_block list" where
  "flush_paragraph content_blocks current_paragraph =
     (let paragraph_text = join_space current_paragraph
      in if 10 < length (strip paragraph_text)
         then (let (sec, sub) = extract_sections_and_subsections paragraph_text
               in content_blocks @
                  [\<lparr>b_section = sec, b_sub_section = sub,
                    payload = Paragraph (clean_text paragraph_text)\<rparr>])
         else content_blocks)"

text \<open>
  The loop over the sorted lines, on the state \<open>content_blocks\<close>, \<open>current_paragraph\<close>,
  \<open>current_y_group\<close>, and the flush of the last buffer behind it.
\<close>

fun segment ::
  "(rat \<times> pchar list) list \<Rightarrow> content_block list \<Rightarrow> string list \<Rightarrow> rat option \<Rightarrow>
     error + content_block list" where
  "segment [] content_blocks current_paragraph current_y_group =
     Inr (if current_paragraph \<noteq> [] then flush_paragraph content_blocks current_paragraph
          else content_blocks)"
| "segment ((y, cs) # ls) content_blocks current_paragraph current_y_group =
     (case join_texts cs of
        Inl e \<Rightarrow> Inl e
      | Inr t \<Rightarrow>
          (let line_text = strip t
           in if line_text = [] then segment ls content_blocks current_paragraph current_y_group
              else (case current_y_group of
                      None \<Rightarrow> segment ls content_blocks (current_paragraph @ [line_text]) (Some y)
                    | Some y' \<Rightarrow>
                        (if 20 < \<bar>fsub y y'\<bar>
                         then (if current_paragraph \<noteq> []
                               then segment ls (flush_paragraph content_blocks current_paragraph)
                                      [line_text] (Some y)
                               else segment ls content_blocks
                                      (current_paragraph @ [line_text]) (Some y))
                         else segment ls content_blocks
                                (current_paragraph @ [line_text]) (Some y)))))"

definition analyze_content_blocks :: "page \<Rightarrow> error + content_block list" where
  "analyze_content_blocks pg =
     (if chars pg = [] then Inr []
      else (case group_lines (chars pg) [] of
              Inl e \<Rightarrow> Inl e
            | Inr lines \<Rightarrow> segment (sort_key (\<lambda>x. - fst x) lines) [] [] None))"

section \<open>The table extractor\<close>

text \<open>
  \<open>camelot.read_pdf\<close> is outside the program: for a page number it raises an exception
  (\<open>Inl\<close>, with the exception's text) or returns the tables found, each a data frame, here
  the list of its rows of cells. A frame is \<open>empty\<close> when it has no row or no column.
\<close>

type_synonym dataframe = "string list list"

type_synonym table_service = "nat \<Rightarrow> string + dataframe list"

definition df_empty :: "dataframe \<Rightarrow> bool" where
  "df_empty df = (df = [] \<or> hd df = [])"

text \<open>Rows with a cell that is not blank are kept.\<close>

definition remove_empty_rows :: "dataframe \<Rightarrow> dataframe" where
  "remove_empty_rows table_data = filter (\<lambda>row. \<exists>cell \<in> set row. strip cell \<noteq> []) table_data"

text \<open>The loop \<open>for i, table in enumerate(camelot_tables)\<close>.\<close>

fun tables_loop :: "nat \<Rightarrow> nat \<Rightarrow> dataframe list \<Rightarrow> content_block list \<Rightarrow> content_block list" where
  "tables_loop page_num i [] tables = tables"
| "tables_loop page_num i (df # dfs) tables =
     (if df_empty df then tables_loop page_num (Suc i) dfs tables
      else (let table_data = remove_empty_rows df
            in if table_data \<noteq> []
               then tables_loop page_num (Suc i) dfs
                      (tables @
                       [\<lparr>b_section = None, b_sub_section = None,
                         payload = Table (''Table '' @ str_nat (i + 1) @ '' from page '' @
                                          str_nat page_num) table_data\<rparr>])
               else tables_loop page_num (Suc i) dfs tables))"

text \<open>The result and what was logged.\<close>

definition extract_tables_from_page :: "table_service \<Rightarrow> nat \<Rightarrow> content_block list \<times> log" where
  "extract_tables_from_page read_pdf page_num =
     (case read_pdf page_num of
        Inr camelot_tables \<Rightarrow> (tables_loop page_num 0 camelot_tables [], [])
      | Inl e \<Rightarrow>
          ([], [(WARNING, ''Could not extract tables from page '' @ str_nat page_num @ '': '' @ e)]))"

section \<open>The chart detector\<close>

text \<open>The loop over \<open>page.chars\<close> that collects \<open>nearby_text\<close> for an image whose \<open>y1\<close> is given.\<close>

fun nearby_text :: "rat \<Rightarrow> pchar list \<Rightarrow> string" where
  "nearby_text y1 [] = []"
| "nearby_text y1 (text_obj # cs) =
     (let text_y = get_default (char_y0 text_obj) 0
      in if \<bar>fsub text_y y1\<bar> < 50
         then get_default (char_text text_obj) [] @ nearby_text y1 cs
         else nearby_text y1 cs)"

text \<open>The loop \<open>for i, image in enumerate(images)\<close>.\<close>

fun charts_loop :: "pchar list \<Rightarrow> nat \<Rightarrow> image list \<Rightarrow> content_block list \<Rightarrow> content_block list" where
  "charts_loop cs i [] charts = charts"
| "charts_loop cs i (img # imgs) charts =
     (let width = get_default (img_width img) 0;
          height = get_default (img_height img) 0
      in if 100 < width \<and> 100 < height
         then (let y1 = get_default (img_y1 img) height;
                   nearby = nearby_text y1 cs
               in charts_loop cs (Suc i) imgs
                    (charts @
                     [\<lparr>b_section = None, b_sub_section = None,
                       payload = Chart (if nearby \<noteq> []
                                        then ''Chart/Image '' @ str_nat (i + 1) @ '' - '' @
                                             take 100 nearby @ ''...''
                                        else ''Chart/Image '' @ str_nat (i + 1))
                                       [] width height\<rparr>]))
         else charts_loop cs (Suc i) imgs charts)"

definition detect_charts_in_page :: "page \<Rightarrow> content_block list" where
  "detect_charts_in_page pg = charts_loop (chars pg) 0 (images pg) []"

section \<open>Parsing a document\<close>

text \<open>
  The loop \<open>for block in reversed(text_blocks)\<close> for one table or chart: the first block
  whose \<open>section\<close> is true gives its \<open>section\<close> and \<open>sub_section\<close> and ends the loop.
  \<open>assign_context\<close> is given the reversed list.
\<close>

fun assign_context :: "content_block list \<Rightarrow> content_block \<Rightarrow> content_block" where
  "assign_context [] t = t"
| "assign_context (block # blocks) t =
     (if truthy (b_section block)
      then t\<lparr>b_section := b_section block, b_sub_section := b_sub_section block\<rparr>
      else assign_context blocks t)"

record page_result =
  page_number :: nat
  content :: "content_block list"

text \<open>The body of the loop over the pages, for the page with number \<open>page_num\<close>.\<close>

definition parse_page :: "table_service \<Rightarrow> nat \<Rightarrow> page \<Rightarrow> log \<times> (error + page_result)" where
  "parse_page read_pdf page_num pg =
     (let log0 = [(INFO, ''Processing page '' @ str_nat page_num)]
      in case analyze_content_blocks pg of
           Inl e \<Rightarrow> (log0, Inl e)
         | Inr text_blocks \<Rightarrow>
             (let (tables, log1) = extract_tables_from_page read_pdf page_num;
                  tables' = map (assign_context (rev text_blocks)) tables;
                  charts = detect_charts_in_page pg;
                  charts' = map (assign_context (rev text_blocks)) charts
              in (log0 @ log1,
                  Inr \<lparr>page_number = page_num,
                       content = text_blocks @ tables' @ charts'\<rparr>)))"

text \<open>\<open>for page_num, page in enumerate(pdf.pages, 1)\<close>, with the pages parsed so far.\<close>

fun parse_pages ::
  "table_service \<Rightarrow> nat \<Rightarrow> page list \<Rightarrow> page_result list \<Rightarrow> log \<times> (error + page_result list)" where
  "parse_pages read_pdf page_num [] result = ([], Inr result)"
| "parse_pages read_pdf page_num (pg # pgs) result =
     (case parse_page read_pdf page_num pg of
        (lg, Inl e) \<Rightarrow> (lg, Inl e)
      | (lg, Inr r) \<Rightarrow>
          (case parse_pages read_pdf (Suc page_num) pgs (result @ [r]) of
             (lg', res) \<Rightarrow> (lg @ lg', res)))"

text \<open>
  \<open>parse_pdf\<close>: \<open>exists\<close> says whether the file is there, \<open>pages\<close> is what the decoder
  reads from it.
\<close>

definition parse_pdf ::
  "string \<Rightarrow> bool \<Rightarrow> table_service \<Rightarrow> page list \<Rightarrow> log \<times> (error + page_result list)" where
  "parse_pdf pdf_path exists read_pdf pages =
     (if \<not> exists then ([], Inl FileNotFoundError)
      else (case parse_pages read_pdf 1 pages [] of
              (lg, Inl e) \<Rightarrow> ((INFO, ''Parsing PDF: '' @ pdf_path) # lg, Inl e)
            | (lg, Inr result) \<Rightarrow>
                ((INFO, ''Parsing PDF: '' @ pdf_path) # lg @
                 [(INFO, ''Successfully parsed '' @ str_nat (length result) @ '' pages'')],
                 Inr result)))"

section \<open>Notions of the specification\<close>

text \<open>
  Whitespace normalisation as the specification words it: every run of whitespace becomes
  one space.
\<close>

function squeeze :: "string \<Rightarrow> string" where
  "squeeze [] = []"
| "squeeze (c # cs) =
     (if is_space c then CHR '' '' # squeeze (dropWhile is_space cs) else c # squeeze cs)"
  by pat_completeness auto
termination
  by (relation "measure length") (auto simp: less_Suc_eq_le length_dropWhile_le)

text \<open>A text is tidy when its only whitespace is single spaces between other characters
  or at its ends.\<close>

fun tidy :: "string \<Rightarrow> bool" where
  "tidy [] = True"
| "tidy [c] = (is_space c \<longrightarrow> c = CHR '' '')"
| "tidy (c # d # cs) = ((is_space c \<longrightarrow> c = CHR '' '' \<and> \<not> is_space d) \<and> tidy (d # cs))"

text \<open>Whitespace removed at the end only.\<close>

definition rstrip :: "string \<Rightarrow> string" where
  "rstrip s = rev (dropWhile is_space (rev s))"

text \<open>
  The lines of a page that reach a paragraph buffer: the sorted lines whose text is not
  empty once stripped, each with its coordinate.
\<close>

fun nonempty_lines :: "(rat \<times> pchar list) list \<Rightarrow> error + (rat \<times> string) list" where
  "nonempty_lines [] = Inr []"
| "nonempty_lines ((y, cs) # ls) =
     (case join_texts cs of
        Inl e \<Rightarrow> Inl e
      | Inr t \<Rightarrow>
          (case nonempty_lines ls of
             Inl e \<Rightarrow> Inl e
           | Inr r \<Rightarrow> Inr (if strip t = [] then r else (y, strip t) # r)))"

text \<open>
  Paragraphs by gaps: two consecutive lines are in the same paragraph exactly when the
  difference of their coordinates, as the program computes it on doubles, is at most 20
  in absolute value.
\<close>

fun group_by_gap :: "(rat \<times> 'a) list \<Rightarrow> (rat \<times> 'a) list list" where
  "group_by_gap [] = []"
| "group_by_gap [l] = [[l]]"
| "group_by_gap (l # l' # ls) =
     (if \<bar>fsub (fst l') (fst l)\<bar> \<le> 20
      then (case group_by_gap (l' # ls) of
              [] \<Rightarrow> [[l]]
            | g # gs \<Rightarrow> (l # g) # gs)
      else [l] # group_by_gap (l' # ls))"

text \<open>The paragraph block of a buffer.\<close>

definition paragraph_block :: "string list \<Rightarrow> content_block" where
  "paragraph_block buf =
     \<lparr>b_section = fst (extract_sections_and_subsections (join_space buf)),
      b_sub_section = snd (extract_sections_and_subsections (join_space buf)),
      payload = Paragraph (clean_text (join_space buf))\<rparr>"

text \<open>
  The lines the classifier would look at if empty lines did not count toward the limit
  of five.
\<close>

definition first_five_nonempty :: "string \<Rightarrow> string list" where
  "first_five_nonempty text = take 5 (filter (\<lambda>l. l \<noteq> []) (map strip (split_newline text)))"

text \<open>
  Heading context as the specification words it: that of the first paragraph, from the
  end of the list, whose section is not null; both fields null when there is none.
\<close>

definition nearest_heading :: "content_block list \<Rightarrow> content_block \<Rightarrow> content_block" where
  "nearest_heading text_blocks t =
     (case find (\<lambda>b. b_section b \<noteq> None) (rev text_blocks) of
        None \<Rightarrow> t\<lparr>b_section := None, b_sub_section := None\<rparr>
      | Some b \<Rightarrow> t\<lparr>b_section := b_section b, b_sub_section := b_sub_section b\<rparr>)"

text \<open>
  With larger \<open>y\<close> higher on the page, the bottom edge of an image is the lower of the two
  horizontal edges \<open>y0\<close> and \<open>y1\<close> of its box.
\<close>

definition bottom_edge :: "image \<Rightarrow> rat" where
  "bottom_edge img =
     min (get_default (img_y0 img) 0)
         (get_default (img_y1 img) (get_default (img_height img) 0))"

text \<open>
  The texts of the characters whose \<open>y0\<close> is less than 50 away from \<open>y\<close>, the distance
  being the one the program computes on doubles, concatenated.
\<close>

definition caption_near :: "rat \<Rightarrow> pchar list \<Rightarrow> string" where
  "caption_near y cs =
     concat (map (\<lambda>c. get_default (char_text c) [])
               (filter (\<lambda>c. \<bar>fsub (get_default (char_y0 c) 0) y\<bar> < 50) cs))"

text \<open>
  The chart block of the image with index \<open>i\<close>, its caption taken at the coordinate \<open>y1\<close>
  of the image (its height where \<open>y1\<close> is absent).
\<close>

definition chart_block :: "pchar list \<Rightarrow> nat \<times> image \<Rightarrow> content_block" where
  "chart_block cs x =
     (let i = fst x; img = snd x;
          width = get_default (img_width img) 0;
          height = get_default (img_height img) 0;
          caption = caption_near (get_default (img_y1 img) height) cs
      in \<lparr>b_section = None, b_sub_section = None,
          payload = Chart (if caption \<noteq> []
                           then ''Chart/Image '' @ str_nat (i + 1) @ '' - '' @
                                take 100 caption @ ''...''
                           else ''Chart/Image '' @ str_nat (i + 1))
                          [] width height\<rparr>)"

definition chart_sized :: "image \<Rightarrow> bool" where
  "chart_sized img =
     (100 < get_default (img_width img) 0 \<and> 100 < get_default (img_height img) 0)"

text \<open>
  For the proofs about the segmenter: a line that carries the buffer built so far, and
  the buffer of a group of such lines.
\<close>

definition buffer_of :: "(rat \<times> string list) list \<Rightarrow> string list" where
  "buffer_of g = concat (map snd g)"

definition lift_lines :: "(rat \<times> string) list \<Rightarrow> (rat \<times> string list) list" where
  "lift_lines nl = map (\<lambda>l. (fst l, [snd l])) nl"

section \<open>Properties of the text cleaner\<close>

lemma in_class_Space: "in_class Space = is_space"
  by (rule ext) simp

lemma first_fit_top: "f (lo + d) = Some r \<Longrightarrow> first_fit f lo d = Some r"
  by (cases d) simp_all

lemma first_fit_None: "(\<And>k. f k = None) \<Longrightarrow> first_fit f lo d = None"
  by (induction d) simp_all

lemma re_items_whitespace_run:
  "re_items whitespace_run prev s =
     (if s \<noteq> [] \<and> is_space (hd s) then Some ([takeWhile is_space s], dropWhile is_space s) else None)"
proof (cases "s \<noteq> [] \<and> is_space (hd s)")
  case True
  then obtain c cs where s: "s = c # cs" and c: "is_space c" by (cases s) auto
  obtain m where n: "length (takeWhile is_space s) = Suc m"
    using s c by simp
  have td: "take (Suc m) s = takeWhile is_space s" "drop (Suc m) s = dropWhile is_space s"
    using takeWhile_eq_take[of is_space s] dropWhile_eq_drop[of is_space s] n by simp_all
  have "first_fit
          (\<lambda>k. case re_items [] (if k = 0 then prev else Some (s ! (k - 1))) (drop k s) of
                  None \<Rightarrow> None
                | Some (segs, rest) \<Rightarrow> Some (take k s # segs, rest))
          1 m = Some ([takeWhile is_space s], dropWhile is_space s)"
    by (rule first_fit_top) (simp add: td)
  moreover have "takeWhile is_space s \<noteq> []" using s c by simp
  ultimately show ?thesis using True n
    by (simp add: whitespace_run_def Let_def in_class_Space del: first_fit.simps)
next
  case False
  then have "length (takeWhile is_space s) = 0" by (cases s) auto
  then show ?thesis using False by (simp add: whitespace_run_def in_class_Space)
qed

lemma sub_scan_whitespace_run:
  "sub_scan whitespace_run '' '' 0 n prev s = squeeze s"
proof (induction s arbitrary: n prev rule: squeeze.induct)
  case 1
  show ?case by (subst sub_scan.simps) (simp add: re_items_whitespace_run)
next
  case (2 c cs)
  show ?case
  proof (cases "is_space c")
    case True
    have "length (dropWhile is_space cs) < Suc (length cs)"
      using length_dropWhile_le[of is_space cs] by simp
    then show ?thesis using True 2(1)
      by (subst sub_scan.simps) (simp add: re_items_whitespace_run)
  next
    case False
    then show ?thesis using 2(2)
      by (subst sub_scan.simps) (simp add: re_items_whitespace_run)
  qed
qed


lemma re_items_newline_first:
  "CHR 0x0A \<notin> set s \<Longrightarrow> re_items (Rep One (Lit (CHR 0x0A)) # its) prev s = None"
proof -
  assume "CHR 0x0A \<notin> set s"
  then have "takeWhile (in_class (Lit (CHR 0x0A))) s = []"
    by (cases s) auto
  then show ?thesis by simp
qed

lemma sub_scan_no_match:
  assumes "\<And>prev t. CHR 0x0A \<notin> set t \<Longrightarrow> re_items p prev t = None"
  shows "CHR 0x0A \<notin> set s \<Longrightarrow> sub_scan p repl count n prev s = s"
proof (induction s arbitrary: n prev)
  case Nil
  show ?case using assms[of "[]"] by (subst sub_scan.simps) simp
next
  case (Cons c cs)
  then show ?case using assms[of "c # cs" prev] by (subst sub_scan.simps) simp
qed

lemma squeeze_nonspace: "\<not> is_space c \<Longrightarrow> squeeze (c # cs) = c # squeeze cs"
  by simp

lemma tidy_Cons_nonspace: "\<not> is_space c \<Longrightarrow> tidy (c # z) = tidy z"
  by (cases z) simp_all

lemma tidy_space_Cons:
  "tidy (CHR '' '' # z) = ((z = [] \<or> \<not> is_space (hd z)) \<and> tidy z)"
  by (cases z) (auto simp: is_space_def)

lemma squeeze_eq_Nil: "squeeze s = [] \<longleftrightarrow> s = []"
  by (cases s) simp_all

lemma hd_squeeze_nonspace: "s \<noteq> [] \<Longrightarrow> \<not> is_space (hd s) \<Longrightarrow> hd (squeeze s) = hd s"
  by (cases s) simp_all

lemma tidy_squeeze: "tidy (squeeze s)"
proof (induction s rule: squeeze.induct)
  case 1
  show ?case by simp
next
  case (2 c cs)
  show ?case
  proof (cases "is_space c")
    case True
    let ?r = "dropWhile is_space cs"
    have "squeeze ?r = [] \<or> \<not> is_space (hd (squeeze ?r))"
    proof (cases "?r = []")
      case True
      then show ?thesis by (simp del: dropWhile_eq_Nil_conv)
    next
      case False
      then have "\<not> is_space (hd ?r)" by (rule hd_dropWhile)
      then show ?thesis using False by (simp add: hd_squeeze_nonspace)
    qed
    then show ?thesis using True 2(1) by (simp add: tidy_space_Cons)
  next
    case False
    then show ?thesis using 2(2) by (simp add: tidy_Cons_nonspace)
  qed
qed

lemma squeeze_tidy: "tidy s \<Longrightarrow> squeeze s = s"
proof (induction s rule: tidy.induct)
  case 1
  show ?case by simp
next
  case (2 c)
  then show ?case by simp
next
  case (3 c d cs)
  then show ?case by (cases "is_space c") auto
qed

lemma tidy_no_newline: "tidy s \<Longrightarrow> CHR 0x0A \<notin> set s"
  by (induction s rule: tidy.induct) (auto simp: is_space_def)

lemma tidy_suffix: "tidy (a @ b) \<Longrightarrow> tidy b"
proof (induction a)
  case Nil
  then show ?case by simp
next
  case (Cons c a)
  then show ?case by (cases "a @ b") auto
qed

lemma tidy_prefix: "tidy (a @ b) \<Longrightarrow> tidy a"
proof (induction a rule: tidy.induct)
  case 1
  show ?case by simp
next
  case (2 c)
  then show ?case by (cases b) auto
next
  case (3 c d cs)
  then show ?case by auto
qed

lemma tidy_strip: "tidy s \<Longrightarrow> tidy (strip s)"
proof -
  assume t: "tidy s"
  let ?u = "dropWhile is_space s"
  have "s = takeWhile is_space s @ ?u" by simp
  with t have u: "tidy ?u" using tidy_suffix by metis
  have "?u = rev (dropWhile is_space (rev ?u)) @ rev (takeWhile is_space (rev ?u))"
    by (metis rev_append rev_rev_ident takeWhile_dropWhile_id)
  with u have "tidy (rev (dropWhile is_space (rev ?u)))" using tidy_prefix by metis
  then show ?thesis by (simp add: strip_def)
qed

lemma tidy_nth:
  "tidy s \<Longrightarrow> Suc i < length s \<Longrightarrow> \<not> (is_space (s ! i) \<and> is_space (s ! Suc i))"
proof (induction s arbitrary: i rule: tidy.induct)
  case 1
  then show ?case by simp
next
  case (2 c)
  then show ?case by simp
next
  case (3 c d cs)
  then show ?case by (cases i) auto
qed

lemma strip_ends:
  "strip s \<noteq> [] \<Longrightarrow> \<not> is_space (hd (strip s)) \<and> \<not> is_space (last (strip s))"
  by (metis dropWhile_idem hd_dropWhile last_appendR last_rev rev.simps(1)
      rev_rev_ident strip_def takeWhile_dropWhile_id)

lemma strip_fixed:
  "s = [] \<or> (\<not> is_space (hd s) \<and> \<not> is_space (last s)) \<Longrightarrow> strip s = s"
  by (metis dropWhile_eq_self_iff hd_rev rev.simps(1) rev_rev_ident strip_def)

lemma strip_strip: "strip (strip s) = strip s"
  using strip_ends[of s] by (intro strip_fixed) blast

lemma clean_text_squeeze: "clean_text x = strip (squeeze x)"
proof (cases "x = []")
  case True
  then show ?thesis by (simp add: clean_text_def strip_def)
next
  case False
  have t1: "re_sub whitespace_run '' '' x 0 = squeeze x"
    unfolding re_sub_def by (rule sub_scan_whitespace_run)
  have nl: "CHR 0x0A \<notin> set (squeeze x)"
    by (rule tidy_no_newline) (rule tidy_squeeze)
  have t2: "re_sub page_number_line ''\<newline>'' (squeeze x) 0 = squeeze x"
    unfolding re_sub_def page_number_line_def
    by (rule sub_scan_no_match) (rule re_items_newline_first, assumption, rule nl)
  have t3: "re_sub page_of_line ''\<newline>'' (squeeze x) 2 = squeeze x"
    unfolding re_sub_def page_of_line_def append.simps
    by (rule sub_scan_no_match) (rule re_items_newline_first, assumption, rule nl)
  show ?thesis using False by (simp add: clean_text_def t1 t2 t3)
qed

text \<open>
  C5: the text cleaner is idempotent: cleaning a cleaned text gives the cleaned text, for
  every input.
\<close>

theorem clean_text_idempotent: "clean_text (clean_text x) = clean_text x"
proof -
  have "tidy (strip (squeeze x))" by (intro tidy_strip tidy_squeeze)
  then have "squeeze (strip (squeeze x)) = strip (squeeze x)" by (rule squeeze_tidy)
  then show ?thesis by (simp add: clean_text_squeeze strip_strip)
qed

theorem clean_text_idempotent_witness:
  "clean_text (clean_text ''  a \<newline>\<newline> b  '') = clean_text ''  a \<newline>\<newline> b  '' \<and>
   clean_text ''  a \<newline>\<newline> b  '' = ''a b''"
proof -
  have v: "clean_text ''  a \<newline>\<newline> b  '' = ''a b''"
    by (simp add: clean_text_squeeze strip_def is_space_def)
  show ?thesis
    using clean_text_idempotent[of "''  a \<newline>\<newline> b  ''"] v by simp
qed

text \<open>
  C10: for every input the cleaned text has no newline, no two whitespace characters in
  a row and no whitespace at its start or end; the empty input gives the empty text.
\<close>

theorem clean_text_normal_form:
  "CHR 0x0A \<notin> set (clean_text x) \<and>
   (\<forall>i. Suc i < length (clean_text x) \<longrightarrow>
        \<not> (is_space (clean_text x ! i) \<and> is_space (clean_text x ! Suc i))) \<and>
   (clean_text x \<noteq> [] \<longrightarrow>
        \<not> is_space (hd (clean_text x)) \<and> \<not> is_space (last (clean_text x))) \<and>
   clean_text [] = []"
proof -
  have t: "tidy (clean_text x)"
    unfolding clean_text_squeeze by (intro tidy_strip tidy_squeeze)
  have e: "clean_text [] = []" by (simp add: clean_text_def)
  show ?thesis
    using tidy_no_newline[OF t] tidy_nth[OF t] strip_ends[of "squeeze x"] e
    by (simp add: clean_text_squeeze)
qed

theorem clean_text_normal_form_witness:
  "clean_text ''  a \<newline>\<newline> b  '' = ''a b'' \<and>
   Suc 0 < length (clean_text ''  a \<newline>\<newline> b  '') \<and>
   \<not> (is_space (clean_text ''  a \<newline>\<newline> b  '' ! 0) \<and>
      is_space (clean_text ''  a \<newline>\<newline> b  '' ! Suc 0)) \<and>
   clean_text ''  a \<newline>\<newline> b  '' \<noteq> [] \<and>
   \<not> is_space (hd (clean_text ''  a \<newline>\<newline> b  '')) \<and>
   \<not> is_space (last (clean_text ''  a \<newline>\<newline> b  ''))"
proof -
  have v: "clean_text ''  a \<newline>\<newline> b  '' = ''a b''"
    by (simp add: clean_text_squeeze strip_def is_space_def)
  show ?thesis
    using clean_text_normal_form[of "''  a \<newline>\<newline> b  ''"] by (simp add: v)
qed

text \<open>
  C6: a line that is only a page number, and a line \<open>Page N of M\<close>, are to be removed by
  the cleaner. The cleaner replaces every newline by a space before it looks for such
  lines between newlines, so both lines stay in the cleaned text.
\<close>

theorem clean_text_keeps_page_numbers:
  "clean_text ''Summary\<newline>12\<newline>Details'' = ''Summary 12 Details'' \<and>
   clean_text ''Summary\<newline>Page 3 of 10\<newline>Details'' = ''Summary Page 3 of 10 Details''"
  by (simp add: clean_text_squeeze strip_def is_space_def)


section \<open>Properties of the heading classifier\<close>

lemma check_section_truthy: "truthy sec \<Longrightarrow> check_section ps line sec = sec"
  by (induction ps) (auto split: option.splits)

lemma check_subsection_cases:
  "check_subsection ps line sec sub = sub \<or>
   (truthy sec \<and> (\<exists>p\<in>set ps. \<exists>g. re_match_group p line = Some g \<and>
        check_subsection ps line sec sub = Some (strip g)))"
  by (induction ps) (auto split: option.splits)

lemma scan_lines_invariant:
  assumes "scan_lines ls sec0 sub0 = (sec, sub)"
  shows "(sub0 \<noteq> None \<longrightarrow> truthy sec0) \<longrightarrow> (sub \<noteq> None \<longrightarrow> truthy sec)"
    and "sub = sub0 \<or>
         (\<exists>l\<in>set ls. \<exists>p\<in>set subsection_patterns. \<exists>g.
            strip l \<noteq> [] \<and> re_match_group p (strip l) = Some g \<and> sub = Some (strip g))"
  using assms
proof (induction ls arbitrary: sec0 sub0)
  case Nil
  {
    case 1
    then show ?case by simp
  next
    case 2
    then show ?case by simp
  }
next
  case (Cons l ls)
  {
    case 1
    show ?case
    proof (cases "strip l = []")
      case True
      with 1 have "scan_lines ls sec0 sub0 = (sec, sub)" by simp
      then show ?thesis using Cons.IH(1) by blast
    next
      case False
      let ?sec' = "check_section section_patterns (strip l) sec0"
      let ?sub' = "check_subsection subsection_patterns (strip l) ?sec' sub0"
      from 1 False have r: "scan_lines ls ?sec' ?sub' = (sec, sub)" by (simp add: Let_def)
      have "(sub0 \<noteq> None \<longrightarrow> truthy sec0) \<longrightarrow> (?sub' \<noteq> None \<longrightarrow> truthy ?sec')"
        using check_subsection_cases[of subsection_patterns "strip l" ?sec' sub0]
              check_section_truthy[of sec0 section_patterns "strip l"]
        by auto
      then show ?thesis using Cons.IH(1)[OF r] by blast
    qed
  next
    case 2
    show ?case
    proof (cases "strip l = []")
      case True
      with 2 have "scan_lines ls sec0 sub0 = (sec, sub)" by simp
      then show ?thesis using Cons.IH(2) by fastforce
    next
      case False
      let ?sec' = "check_section section_patterns (strip l) sec0"
      let ?sub' = "check_subsection subsection_patterns (strip l) ?sec' sub0"
      from 2 False have r: "scan_lines ls ?sec' ?sub' = (sec, sub)" by (simp add: Let_def)
      show ?thesis
        using Cons.IH(2)[OF r] False
              check_subsection_cases[of subsection_patterns "strip l" ?sec' sub0]
        by fastforce
    qed
  }
qed

text \<open>
  C4: the heading classifier never returns a sub-section without a section: when the
  sub-section is not null, the section is not null (and not empty), and the sub-section
  is the stripped group of a sub-section pattern matched on one of the lines scanned.
\<close>

theorem sub_section_needs_section:
  assumes "extract_sections_and_subsections text = (sec, sub)" and "sub \<noteq> None"
  shows "sec \<noteq> None \<and> truthy sec \<and>
         (\<exists>l\<in>set (take 5 (split_newline text)). \<exists>p\<in>set subsection_patterns. \<exists>g.
            strip l \<noteq> [] \<and> re_match_group p (strip l) = Some g \<and> sub = Some (strip g))"
proof -
  from assms(1) have s: "scan_lines (take 5 (split_newline text)) None None = (sec, sub)"
    by (simp add: extract_sections_and_subsections_def)
  from scan_lines_invariant(1)[OF s] assms(2) have "truthy sec" by simp
  moreover from this have "sec \<noteq> None" by (cases sec) simp_all
  moreover from scan_lines_invariant(2)[OF s] assms(2) have
    "\<exists>l\<in>set (take 5 (split_newline text)). \<exists>p\<in>set subsection_patterns. \<exists>g.
            strip l \<noteq> [] \<and> re_match_group p (strip l) = Some g \<and> sub = Some (strip g)"
    by blast
  ultimately show ?thesis by blast
qed

theorem sub_section_needs_section_witness:
  "extract_sections_and_subsections ''1. Executive Summary\<newline>1.1 Key Findings'' =
     (Some ''1. Executive Summary'', Some ''1.1 Key Findings'') \<and>
   Some ''1.1 Key Findings'' \<noteq> (None :: string option) \<and>
   Some ''1. Executive Summary'' \<noteq> (None :: string option) \<and>
   truthy (Some ''1. Executive Summary'') \<and>
   extract_sections_and_subsections ''1.1 Key Findings'' = (None, None)"
proof -
  have e: "extract_sections_and_subsections ''1. Executive Summary\<newline>1.1 Key Findings'' =
             (Some ''1. Executive Summary'', Some ''1.1 Key Findings'')"
    by code_simp
  have n: "Some ''1.1 Key Findings'' \<noteq> (None :: string option)" by simp
  have f: "extract_sections_and_subsections ''1.1 Key Findings'' = (None, None)"
    by code_simp
  show ?thesis using sub_section_needs_section[OF e n] e f by simp
qed

lemma scan_lines_filter:
  "scan_lines ls sec sub = scan_lines (filter (\<lambda>l. l \<noteq> []) (map strip ls)) sec sub"
  by (induction ls arbitrary: sec sub) (simp_all add: strip_strip Let_def)

text \<open>
  C7, as stated: the classifier looks at no more than the first five non-empty lines, and
  empty lines do not count toward the five. The code takes the first five lines, empty
  ones included, and then passes over the empty ones: behind four empty lines the second
  non-empty line is not looked at.
\<close>

theorem classifier_limit_counts_empty_lines:
  "extract_sections_and_subsections ''INTRODUCTION\<newline>\<newline>\<newline>\<newline>\<newline>Sub Title'' =
     (Some ''INTRODUCTION'', None) \<and>
   first_five_nonempty ''INTRODUCTION\<newline>\<newline>\<newline>\<newline>\<newline>Sub Title'' =
     [''INTRODUCTION'', ''Sub Title''] \<and>
   scan_lines (first_five_nonempty ''INTRODUCTION\<newline>\<newline>\<newline>\<newline>\<newline>Sub Title'') None None =
     (Some ''INTRODUCTION'', Some ''Sub Title'')"
  by code_simp

text \<open>
  C7, amended: the classifier looks at exactly the lines that are not empty once stripped
  among the first five lines of the text, so at five lines at most; empty lines count
  toward the five.
\<close>

theorem classifier_reads_first_five_lines:
  "extract_sections_and_subsections text =
     scan_lines (filter (\<lambda>l. l \<noteq> []) (map strip (take 5 (split_newline text)))) None None \<and>
   length (filter (\<lambda>l. l \<noteq> []) (map strip (take 5 (split_newline text)))) \<le> 5"
proof -
  have "length (filter (\<lambda>l. l \<noteq> []) (map strip (take 5 (split_newline text))))
          \<le> length (map strip (take 5 (split_newline text)))"
    by (rule length_filter_le)
  then show ?thesis
    using scan_lines_filter[of "take 5 (split_newline text)" None None]
    by (simp add: extract_sections_and_subsections_def)
qed


theorem classifier_reads_first_five_lines_witness:
  "extract_sections_and_subsections ''INTRODUCTION\<newline>\<newline>\<newline>\<newline>\<newline>Sub Title'' =
     scan_lines [''INTRODUCTION''] None None \<and>
   length [''INTRODUCTION''] \<le> (5 :: nat)"
proof -
  have "filter (\<lambda>l. l \<noteq> [])
          (map strip (take 5 (split_newline ''INTRODUCTION\<newline>\<newline>\<newline>\<newline>\<newline>Sub Title''))) =
        [''INTRODUCTION'']"
    by code_simp
  then show ?thesis
    using classifier_reads_first_five_lines[of "''INTRODUCTION\<newline>\<newline>\<newline>\<newline>\<newline>Sub Title''"]
    by simp
qed

lemma first_fit_SomeD:
  "first_fit f lo d = Some r \<Longrightarrow> \<exists>k. lo \<le> k \<and> k \<le> lo + d \<and> f k = Some r"
proof (induction d)
  case 0
  then show ?case by auto
next
  case (Suc d)
  show ?case
  proof (cases "f (lo + Suc d)")
    case None
    with Suc obtain k where "lo \<le> k" "k \<le> lo + d" "f k = Some r" by auto
    then show ?thesis by (intro exI[of _ k]) simp
  next
    case (Some a)
    with Suc.prems have "f (lo + Suc d) = Some r" by simp
    then show ?thesis by (intro exI[of _ "lo + Suc d"]) simp
  qed
qed

lemma max_count_le: "max_count q n \<le> n"
  by (cases q) simp_all

lemma re_items_Rep_SomeD:
  assumes "re_items (Rep q c # its) prev s = Some (segs, rest)"
  shows "\<exists>k segs'. segs = take k s # segs' \<and> min_count q \<le> k \<and>
           k \<le> length (takeWhile (in_class c) s) \<and>
           re_items its (if k = 0 then prev else Some (s ! (k - 1))) (drop k s) = Some (segs', rest)"
proof -
  let ?n = "length (takeWhile (in_class c) s)"
  let ?f = "\<lambda>k. case re_items its (if k = 0 then prev else Some (s ! (k - 1))) (drop k s) of
                   None \<Rightarrow> None
                 | Some (segs, rest) \<Rightarrow> Some (take k s # segs, rest)"
  from assms have le: "min_count q \<le> max_count q ?n"
    and ff: "first_fit ?f (min_count q) (max_count q ?n - min_count q) = Some (segs, rest)"
    by (simp_all add: Let_def split: if_splits)
  from first_fit_SomeD[OF ff] obtain k where
    k: "min_count q \<le> k" "k \<le> min_count q + (max_count q ?n - min_count q)"
    and fk: "?f k = Some (segs, rest)" by blast
  from k le have "k \<le> ?n" using max_count_le[of q ?n] by simp
  moreover from fk obtain segs' where
    "re_items its (if k = 0 then prev else Some (s ! (k - 1))) (drop k s) = Some (segs', rest)"
    "segs = take k s # segs'"
    by (auto split: option.splits)
  ultimately show ?thesis using k(1) by blast
qed

lemma re_items_Bol_SomeD:
  "re_items (Bol # its) prev s = Some (segs, rest) \<Longrightarrow>
     \<exists>segs'. segs = [] # segs' \<and> re_items its prev s = Some (segs', rest)"
  by (auto split: if_splits)

lemma re_items_GroupOpen_SomeD:
  "re_items (GroupOpen # its) prev s = Some (segs, rest) \<Longrightarrow>
     \<exists>segs'. segs = [] # segs' \<and> re_items its prev s = Some (segs', rest)"
  by auto

lemma group_starts_in_class:
  assumes "re_match_group (Bol # Rep Star Space # GroupOpen # Rep q c # tl_items) line = Some g"
    and "1 \<le> min_count q"
  shows "g \<noteq> [] \<and> in_class c (hd g)"
proof -
  let ?p = "Bol # Rep Star Space # GroupOpen # Rep q c # tl_items"
  from assms(1) obtain segs rest where
    m: "re_items ?p None line = Some (segs, rest)" and g: "g = group1 ?p segs"
    by (auto simp: re_match_group_def)
  from re_items_Bol_SomeD[OF m] obtain segs1 where
    s1: "segs = [] # segs1"
    and m1: "re_items (Rep Star Space # GroupOpen # Rep q c # tl_items) None line = Some (segs1, rest)"
    by blast
  from re_items_Rep_SomeD[OF m1] obtain k0 segs2 where
    s2: "segs1 = take k0 line # segs2"
    and m2: "re_items (GroupOpen # Rep q c # tl_items)
               (if k0 = 0 then None else Some (line ! (k0 - 1))) (drop k0 line) = Some (segs2, rest)"
    by blast
  from re_items_GroupOpen_SomeD[OF m2] obtain segs3 where
    s3: "segs2 = [] # segs3"
    and m3: "re_items (Rep q c # tl_items)
               (if k0 = 0 then None else Some (line ! (k0 - 1))) (drop k0 line) = Some (segs3, rest)"
    by blast
  let ?s = "drop k0 line"
  from re_items_Rep_SomeD[OF m3] obtain k1 segs4 where
    s4: "segs3 = take k1 ?s # segs4" and k1: "min_count q \<le> k1"
    and k1': "k1 \<le> length (takeWhile (in_class c) ?s)"
    by blast
  from k1 assms(2) have pos: "0 < k1" by simp
  with k1' have ne: "takeWhile (in_class c) ?s \<noteq> []" by auto
  then have hd_in: "in_class c (hd ?s)" and sne: "?s \<noteq> []"
    by (cases ?s; auto split: if_splits)+
  have "g = take k1 ?s @
              concat (map snd (takeWhile (\<lambda>x. fst x \<noteq> GroupClose) (zip tl_items segs4)))"
    by (simp add: g s1 s2 s3 s4 group1_def)
  moreover have "take k1 ?s \<noteq> []" using pos sne by simp
  moreover have "hd (take k1 ?s) = hd ?s" using pos by (simp add: hd_take)
  ultimately show ?thesis using hd_in by simp
qed

lemma digit_not_space: "is_digit c \<Longrightarrow> \<not> is_space c"
  by (auto simp: is_digit_def is_space_def less_eq_char_def)

lemma upper_not_space: "in_class upper c \<Longrightarrow> \<not> is_space c"
  by (auto simp: upper_def is_space_def less_eq_char_def)

lemma strip_nonempty: "g \<noteq> [] \<Longrightarrow> \<not> is_space (hd g) \<Longrightarrow> strip g \<noteq> []"
  by (cases g) (auto simp: strip_def)

lemma section_match_nonempty:
  assumes "p \<in> set section_patterns" and "re_match_group p line = Some g"
  shows "strip g \<noteq> []"
proof -
  from assms(1) consider
      (a) "p = Bol # Rep Star Space # GroupOpen # Rep Plus Digit #
                 [Rep Opt (Lit (CHR ''.'')), Rep Star Space, Rep One upper,
                  Rep Plus letter_or_space, GroupClose]"
    | (b) "p = Bol # Rep Star Space # GroupOpen # Rep One upper #
                 [Rep Plus (Union upper Space), GroupClose, Rep Star Space, Eol]"
    | (c) "p = Bol # Rep Star Space # GroupOpen # Rep One upper #
                 [Rep One lower, Rep Plus letter_or_space, GroupClose, Rep Star Space, Eol]"
    by (auto simp: section_patterns_def)
  then have "g \<noteq> [] \<and> \<not> is_space (hd g)"
  proof cases
    case a
    from group_starts_in_class[OF assms(2)[unfolded a]]
    show ?thesis using digit_not_space by simp
  next
    case b
    from group_starts_in_class[OF assms(2)[unfolded b]]
    show ?thesis using upper_not_space by simp
  next
    case c
    from group_starts_in_class[OF assms(2)[unfolded c]]
    show ?thesis using upper_not_space by simp
  qed
  then show ?thesis by (simp add: strip_nonempty)
qed

lemma check_section_sound:
  assumes "\<And>p g. p \<in> set ps \<Longrightarrow> re_match_group p line = Some g \<Longrightarrow> strip g \<noteq> []"
    and "sec \<noteq> Some []"
  shows "check_section ps line sec \<noteq> Some []"
  using assms by (induction ps) (auto split: option.splits)

lemma scan_lines_section_sound:
  "sec0 \<noteq> Some [] \<Longrightarrow> fst (scan_lines ls sec0 sub0) \<noteq> Some []"
proof (induction ls arbitrary: sec0 sub0)
  case Nil
  then show ?case by simp
next
  case (Cons l ls)
  have "check_section section_patterns (strip l) sec0 \<noteq> Some []"
    using section_match_nonempty Cons.prems by (intro check_section_sound) auto
  then show ?case using Cons by (simp add: Let_def)
qed

lemma extract_section_sound: "fst (extract_sections_and_subsections text) \<noteq> Some []"
  by (simp add: extract_sections_and_subsections_def scan_lines_section_sound)

section \<open>Properties of the paragraph segmenter\<close>

lemma flush_paragraph_append:
  "flush_paragraph cb buf = cb @ flush_paragraph [] buf"
  by (simp add: flush_paragraph_def Let_def split: prod.splits)

lemma flush_paragraph_block:
  "flush_paragraph [] buf =
     (if 10 < length (strip (join_space buf)) then [paragraph_block buf] else [])"
  by (simp add: flush_paragraph_def paragraph_block_def Let_def split: prod.splits)

lemma group_by_gap_head:
  "\<exists>g gs. \<forall>v. group_by_gap ((y, v) # rest) = ((y, v) # g) # gs"
proof (cases rest)
  case Nil
  then show ?thesis by simp
next
  case (Cons l' ls)
  show ?thesis
  proof (cases "\<bar>fsub (fst l') y\<bar> \<le> 20")
    case True
    then show ?thesis using Cons by (cases "group_by_gap (l' # ls)") auto
  next
    case False
    then show ?thesis using Cons by auto
  qed
qed

lemma segment_pending:
  assumes "nonempty_lines ls = Inr nl" and "cp \<noteq> []"
  shows "segment ls cb cp (Some y') =
           Inr (cb @ concat (map (\<lambda>g. flush_paragraph [] (buffer_of g))
                               (group_by_gap ((y', cp) # lift_lines nl))))"
  using assms
proof (induction ls arbitrary: nl cb cp y')
  case Nil
  then show ?case
    by (simp add: lift_lines_def buffer_of_def flush_paragraph_append[of cb])
next
  case (Cons l ls)
  obtain y cs where l: "l = (y, cs)" by (cases l)
  from Cons.prems(1) l obtain t nl' where
    t: "join_texts cs = Inr t" and nl': "nonempty_lines ls = Inr nl'"
    and nl: "nl = (if strip t = [] then nl' else (y, strip t) # nl')"
    by (auto split: sum.splits)
  show ?case
  proof (cases "strip t = []")
    case True
    then show ?thesis using Cons.IH[OF nl' Cons.prems(2)] l t nl by simp
  next
    case False
    let ?st = "strip t"
    let ?F = "\<lambda>g. flush_paragraph [] (buffer_of g)"
    have nl2: "lift_lines nl = (y, [?st]) # lift_lines nl'"
      using False nl by (simp add: lift_lines_def)
    show ?thesis
    proof (cases "20 < \<bar>fsub y y'\<bar>")
      case True
      have "segment (l # ls) cb cp (Some y') =
              segment ls (flush_paragraph cb cp) [?st] (Some y)"
        using l t False True Cons.prems(2) by (simp add: Let_def)
      also have "\<dots> = Inr (flush_paragraph cb cp @
                    concat (map ?F (group_by_gap ((y, [?st]) # lift_lines nl'))))"
        by (rule Cons.IH[OF nl']) simp
      also have "flush_paragraph cb cp = cb @ ?F [(y', cp)]"
        by (simp add: buffer_of_def flush_paragraph_append[of cb])
      finally show ?thesis using True nl2 by simp
    next
      case gap: False
      obtain g gs where
        h: "\<And>v. group_by_gap ((y, v) # lift_lines nl') = ((y, v) # g) # gs"
        using group_by_gap_head[of y "lift_lines nl'"] by blast
      have "segment (l # ls) cb cp (Some y') = segment ls cb (cp @ [?st]) (Some y)"
        using l t False gap by (simp add: Let_def)
      also have "\<dots> = Inr (cb @ concat (map ?F (group_by_gap ((y, cp @ [?st]) # lift_lines nl'))))"
        by (rule Cons.IH[OF nl']) simp
      also have "group_by_gap ((y, cp @ [?st]) # lift_lines nl') = ((y, cp @ [?st]) # g) # gs"
        by (rule h)
      finally have lhs: "segment (l # ls) cb cp (Some y') =
          Inr (cb @ concat (map ?F (((y, cp @ [?st]) # g) # gs)))" .
      have "group_by_gap ((y', cp) # lift_lines nl) = ((y', cp) # (y, [?st]) # g) # gs"
        using gap nl2 h[of "[?st]"] by simp
      moreover have "buffer_of ((y', cp) # (y, [?st]) # g) = buffer_of ((y, cp @ [?st]) # g)"
        by (simp add: buffer_of_def)
      ultimately show ?thesis using lhs by simp
    qed
  qed
qed

lemma segment_start:
  assumes "nonempty_lines ls = Inr nl"
  shows "segment ls cb [] None =
           Inr (cb @ concat (map (\<lambda>g. flush_paragraph [] (buffer_of g))
                               (group_by_gap (lift_lines nl))))"
  using assms
proof (induction ls arbitrary: nl)
  case Nil
  then show ?case by (simp add: lift_lines_def)
next
  case (Cons l ls)
  obtain y cs where l: "l = (y, cs)" by (cases l)
  from Cons.prems(1) l obtain t nl' where
    t: "join_texts cs = Inr t" and nl': "nonempty_lines ls = Inr nl'"
    and nl: "nl = (if strip t = [] then nl' else (y, strip t) # nl')"
    by (auto split: sum.splits)
  show ?case
  proof (cases "strip t = []")
    case True
    then show ?thesis using Cons.IH[OF nl'] l t nl by simp
  next
    case False
    have "segment (l # ls) cb [] None = segment ls cb [strip t] (Some y)"
      using l t False by (simp add: Let_def)
    also have "\<dots> = Inr (cb @ concat (map (\<lambda>g. flush_paragraph [] (buffer_of g))
                               (group_by_gap ((y, [strip t]) # lift_lines nl'))))"
      by (rule segment_pending[OF nl']) simp
    finally show ?thesis using False nl by (simp add: lift_lines_def)
  qed
qed

lemma group_by_gap_lift:
  "group_by_gap (lift_lines nl) = map lift_lines (group_by_gap nl)"
proof (induction nl rule: group_by_gap.induct)
  case 1
  show ?case by (simp add: lift_lines_def)
next
  case (2 l)
  show ?case by (simp add: lift_lines_def)
next
  case (3 l l' ls)
  then show ?case
    by (cases "group_by_gap (l' # ls)") (auto simp: lift_lines_def)
qed

lemma buffer_of_lift: "buffer_of (lift_lines g) = map snd g"
  by (induction g) (simp_all add: buffer_of_def lift_lines_def)

lemma analyze_content_blocks_groups:
  assumes "group_lines (chars pg) [] = Inr lines"
    and "nonempty_lines (sort_key (\<lambda>x. - fst x) lines) = Inr nl"
  shows "analyze_content_blocks pg =
           Inr (concat (map (\<lambda>g. flush_paragraph [] (map snd g)) (group_by_gap nl)))"
proof (cases "chars pg = []")
  case True
  with assms have "nl = []" by auto
  then show ?thesis using True by (simp add: analyze_content_blocks_def)
next
  case False
  have "analyze_content_blocks pg = segment (sort_key (\<lambda>x. - fst x) lines) [] [] None"
    using False assms(1) by (simp add: analyze_content_blocks_def)
  also have "\<dots> = Inr ([] @ concat (map (\<lambda>g. flush_paragraph [] (buffer_of g))
                               (group_by_gap (lift_lines nl))))"
    by (rule segment_start[OF assms(2)])
  finally show ?thesis
    by (simp add: group_by_gap_lift comp_def buffer_of_lift)
qed

lemma rstrip_Cons:
  "rstrip (c # cs) = (if rstrip cs = [] \<and> is_space c then [] else c # rstrip cs)"
  by (simp add: rstrip_def dropWhile_append)

lemma rstrip_Nil: "rstrip [] = []"
  by (simp add: rstrip_def)

lemma strip_rstrip: "strip s = rstrip (dropWhile is_space s)"
  by (simp add: strip_def rstrip_def)

lemma rstrip_eq_Nil: "rstrip s = [] \<longleftrightarrow> (\<forall>c\<in>set s. is_space c)"
  by (simp add: rstrip_def)

lemma all_space_dropWhile:
  "(\<forall>c\<in>set (dropWhile is_space cs). is_space c) \<longleftrightarrow> (\<forall>c\<in>set cs. is_space c)"
proof
  assume a: "\<forall>c\<in>set (dropWhile is_space cs). is_space c"
  have "dropWhile is_space cs = []"
  proof (rule ccontr)
    assume n: "dropWhile is_space cs \<noteq> []"
    then have "\<not> is_space (hd (dropWhile is_space cs))" by (rule hd_dropWhile)
    moreover have "hd (dropWhile is_space cs) \<in> set (dropWhile is_space cs)"
      using n by (rule hd_in_set)
    ultimately show False using a by blast
  qed
  then show "\<forall>c\<in>set cs. is_space c" by simp
next
  assume "\<forall>c\<in>set cs. is_space c"
  then show "\<forall>c\<in>set (dropWhile is_space cs). is_space c"
    by (auto dest: set_dropWhileD)
qed

lemma dropWhile_rstrip: "dropWhile is_space (rstrip s) = rstrip (dropWhile is_space s)"
proof (induction s)
  case Nil
  show ?case by (simp add: rstrip_Nil)
next
  case (Cons c cs)
  show ?case
  proof (cases "is_space c")
    case True
    have "rstrip cs = [] \<Longrightarrow> rstrip (dropWhile is_space cs) = []"
      by (simp only: rstrip_eq_Nil all_space_dropWhile)
    then show ?thesis using True Cons by (auto simp: rstrip_Cons rstrip_Nil)
  next
    case False
    then show ?thesis by (simp add: rstrip_Cons)
  qed
qed

lemma squeeze_dropWhile: "dropWhile is_space (squeeze s) = squeeze (dropWhile is_space s)"
proof (cases s)
  case Nil
  then show ?thesis by simp
next
  case (Cons c cs)
  show ?thesis
  proof (cases "is_space c")
    case True
    let ?r = "dropWhile is_space cs"
    have "squeeze ?r = [] \<or> \<not> is_space (hd (squeeze ?r))"
    proof (cases "?r = []")
      case True
      then show ?thesis by (simp del: dropWhile_eq_Nil_conv)
    next
      case False
      then have "\<not> is_space (hd ?r)" by (rule hd_dropWhile)
      then show ?thesis using False by (simp add: hd_squeeze_nonspace)
    qed
    then have "dropWhile is_space (squeeze ?r) = squeeze ?r"
      by (cases "squeeze ?r") auto
    then show ?thesis using True Cons by (simp add: is_space_def[of "CHR '' ''"])
  next
    case False
    then show ?thesis using Cons by simp
  qed
qed

lemma squeeze_rstrip: "rstrip (squeeze s) = squeeze (rstrip s)"
proof (induction s rule: squeeze.induct)
  case 1
  show ?case by (simp add: rstrip_Nil)
next
  case (2 c cs)
  show ?case
  proof (cases "is_space c")
    case True
    let ?r = "dropWhile is_space cs"
    have ih: "rstrip (squeeze ?r) = squeeze (rstrip ?r)" using 2(1) True by simp
    have e: "rstrip cs = [] \<longleftrightarrow> rstrip ?r = []"
      by (simp only: rstrip_eq_Nil all_space_dropWhile)
    show ?thesis
    proof (cases "rstrip cs = []")
      case r: True
      then have "squeeze (rstrip ?r) = []" using e by simp
      then show ?thesis using True r ih
        by (simp add: rstrip_Cons is_space_def[of "CHR '' ''"])
    next
      case r: False
      then have "squeeze (rstrip ?r) \<noteq> []" using e by (simp add: squeeze_eq_Nil)
      then show ?thesis using True r ih
        by (simp add: rstrip_Cons dropWhile_rstrip)
    qed
  next
    case False
    then show ?thesis using 2(2) by (simp add: rstrip_Cons)
  qed
qed

lemma length_squeeze: "length (squeeze s) \<le> length s"
proof (induction s rule: squeeze.induct)
  case 1
  show ?case by simp
next
  case (2 c cs)
  then show ?case
    using length_dropWhile_le[of is_space cs] by (cases "is_space c") auto
qed

lemma clean_text_strip: "clean_text x = squeeze (strip x)"
  by (simp add: clean_text_squeeze strip_rstrip squeeze_dropWhile squeeze_rstrip)

lemma length_clean_text: "length (clean_text x) \<le> length (strip x)"
  by (simp add: clean_text_strip length_squeeze)

lemma nonempty_lines_error:
  "nonempty_lines ls = Inl e \<Longrightarrow> segment ls cb cp cy = Inl e"
proof (induction ls arbitrary: cb cp cy)
  case Nil
  then show ?case by simp
next
  case (Cons l ls)
  obtain y cs where l: "l = (y, cs)" by (cases l)
  show ?case
  proof (cases "join_texts cs")
    case (Inl e')
    then show ?thesis using Cons.prems l by simp
  next
    case (Inr t)
    then have r: "nonempty_lines ls = Inl e"
      using Cons.prems l by (cases "nonempty_lines ls") simp_all
    have any: "segment ls cb' cp' cy' = Inl e" for cb' cp' cy'
      using r by (rule Cons.IH)
    show ?thesis
      using Inr l by (cases cy) (simp_all add: Let_def any)
  qed
qed

lemma analyze_content_blocks_cases:
  "analyze_content_blocks pg =
     (case group_lines (chars pg) [] of
        Inl e \<Rightarrow> Inl e
      | Inr lines \<Rightarrow>
          (case nonempty_lines (sort_key (\<lambda>x. - fst x) lines) of
             Inl e \<Rightarrow> Inl e
           | Inr nl \<Rightarrow>
               Inr (concat (map (\<lambda>g. flush_paragraph [] (map snd g)) (group_by_gap nl)))))"
proof (cases "group_lines (chars pg) []")
  case (Inl e)
  then have "chars pg \<noteq> []" by auto
  then show ?thesis using Inl by (simp add: analyze_content_blocks_def)
next
  case (Inr lines)
  show ?thesis
  proof (cases "nonempty_lines (sort_key (\<lambda>x. - fst x) lines)")
    case (Inl e)
    have ne: "chars pg \<noteq> []"
    proof
      assume "chars pg = []"
      then have "lines = []" using Inr by simp
      then show False using Inl by simp
    qed
    have "segment (sort_key (\<lambda>x. - fst x) lines) [] [] None = Inl e"
      using Inl by (rule nonempty_lines_error)
    then show ?thesis using Inr Inl ne by (simp add: analyze_content_blocks_def)
  next
    case (Inr nl)
    show ?thesis
      using analyze_content_blocks_groups[OF \<open>group_lines (chars pg) [] = Inr lines\<close> Inr]
        \<open>group_lines (chars pg) [] = Inr lines\<close> Inr
      by simp
  qed
qed

lemma two_lines:
  assumes "round1 y1 = r1" and "round1 y2 = r2" and "r2 < r1"
    and "strip a \<noteq> []" and "strip b \<noteq> []"
  shows "analyze_content_blocks
           \<lparr>chars = [\<lparr>char_y0 = Some y1, char_text = Some a\<rparr>,
                     \<lparr>char_y0 = Some y2, char_text = Some b\<rparr>],
            images = imgs\<rparr> =
         Inr (if \<bar>fsub r2 r1\<bar> \<le> 20
              then flush_paragraph [] [strip a, strip b]
              else flush_paragraph (flush_paragraph [] [strip a]) [strip b])"
proof -
  let ?c1 = "\<lparr>char_y0 = Some y1, char_text = Some a\<rparr>"
  let ?c2 = "\<lparr>char_y0 = Some y2, char_text = Some b\<rparr>"
  have g: "group_lines [?c1, ?c2] [] = Inr [(r1, [?c1]), (r2, [?c2])]"
    using assms(1,2,3) by simp
  have s: "sort_key (\<lambda>x. - fst x) [(r1, [?c1]), (r2, [?c2])] = [(r1, [?c1]), (r2, [?c2])]"
    using assms(3) by simp
  have st: "segment [(r1, [?c1]), (r2, [?c2])] [] [] None =
              segment [(r2, [?c2])] [] [strip a] (Some r1)"
    using assms(4) by (simp add: Let_def)
  have an: "analyze_content_blocks \<lparr>chars = [?c1, ?c2], images = imgs\<rparr> =
              segment (sort_key (\<lambda>x. - fst x) [(r1, [?c1]), (r2, [?c2])]) [] [] None"
    unfolding analyze_content_blocks_def using g by (simp del: group_lines.simps)
  have fin: "segment [(r2, [?c2])] [] [strip a] (Some r1) =
          Inr (if \<bar>fsub r2 r1\<bar> \<le> 20
               then flush_paragraph [] [strip a, strip b]
               else flush_paragraph (flush_paragraph [] [strip a]) [strip b])"
  proof (cases "20 < \<bar>fsub r2 r1\<bar>")
    case True
    then show ?thesis using assms(5) by (simp add: Let_def)
  next
    case False
    then show ?thesis using assms(5) by (simp add: Let_def)
  qed
  show ?thesis unfolding an s st by (rule fin)
qed

text \<open>
  C3, as stated: two consecutive non-empty lines are in the same paragraph exactly when
  the absolute difference of their rounded coordinates is at most 20. The code computes
  the difference on doubles. Lines at 32.2 and 12.2, which differ by 20, are split: the
  difference of the two doubles is computed as 20.000000000000004. Lines at 20.1 and
  0.1 are merged although the two doubles differ by more than 20: their difference is
  computed as 20.0.
\<close>

theorem gap_of_twenty_depends_on_rounding:
  "analyze_content_blocks
     \<lparr>chars = [\<lparr>char_y0 = Some (float_literal (322 / 10)), char_text = Some ''The first line''\<rparr>,
               \<lparr>char_y0 = Some (float_literal (122 / 10)), char_text = Some ''and the second.''\<rparr>],
      images = []\<rparr> =
   Inr [\<lparr>b_section = Some ''The first line'', b_sub_section = Some ''The first line'',
         payload = Paragraph ''The first line''\<rparr>,
        \<lparr>b_section = None, b_sub_section = None,
         payload = Paragraph ''and the second.''\<rparr>] \<and>
   \<bar>322 / 10 - 122 / 10\<bar> \<le> (20 :: rat) \<and>
   analyze_content_blocks
     \<lparr>chars = [\<lparr>char_y0 = Some (float_literal (201 / 10)), char_text = Some ''The first line''\<rparr>,
               \<lparr>char_y0 = Some (float_literal (1 / 10)), char_text = Some ''and the second.''\<rparr>],
      images = []\<rparr> =
   Inr [\<lparr>b_section = None, b_sub_section = None,
         payload = Paragraph ''The first line and the second.''\<rparr>] \<and>
   round1 (float_literal (201 / 10)) = float_literal (201 / 10) \<and>
   round1 (float_literal (1 / 10)) = float_literal (1 / 10) \<and>
   20 < \<bar>float_literal (201 / 10) - float_literal (1 / 10)\<bar>"
  by code_simp

text \<open>
  C3, amended: two consecutive non-empty lines are in the same paragraph exactly when the
  absolute value of the double-precision difference of their rounded coordinates, as
  \<open>abs(y - current_y_group)\<close> computes it, is at most 20; a larger value flushes the
  buffer and starts a new paragraph. The blocks of a page are the flushed groups of its
  non-empty lines. Lines at 100 and 95 are one paragraph, lines at 100 and 70 are two.
\<close>

theorem paragraphs_split_at_float_gaps:
  "analyze_content_blocks pg =
     (case group_lines (chars pg) [] of
        Inl e \<Rightarrow> Inl e
      | Inr lines \<Rightarrow>
          (case nonempty_lines (sort_key (\<lambda>x. - fst x) lines) of
             Inl e \<Rightarrow> Inl e
           | Inr nl \<Rightarrow>
               Inr (concat (map (\<lambda>g. flush_paragraph [] (map snd g)) (group_by_gap nl))))) \<and>
   (round1 y1 = r1 \<and> round1 y2 = r2 \<and> r2 < r1 \<and> strip a \<noteq> [] \<and> strip b \<noteq> [] \<longrightarrow>
      analyze_content_blocks
        \<lparr>chars = [\<lparr>char_y0 = Some y1, char_text = Some a\<rparr>,
                  \<lparr>char_y0 = Some y2, char_text = Some b\<rparr>],
         images = imgs\<rparr> =
      Inr (if \<bar>fsub r2 r1\<bar> \<le> 20
           then flush_paragraph [] [strip a, strip b]
           else flush_paragraph (flush_paragraph [] [strip a]) [strip b]))"
proof -
  have whole: "analyze_content_blocks pg =
     (case group_lines (chars pg) [] of
        Inl e \<Rightarrow> Inl e
      | Inr lines \<Rightarrow>
          (case nonempty_lines (sort_key (\<lambda>x. - fst x) lines) of
             Inl e \<Rightarrow> Inl e
           | Inr nl \<Rightarrow>
               Inr (concat (map (\<lambda>g. flush_paragraph [] (map snd g)) (group_by_gap nl)))))"
    by (rule analyze_content_blocks_cases)
  show ?thesis using whole two_lines[of y1 r1 y2 r2 a b imgs] by blast
qed

theorem paragraphs_split_at_float_gaps_witness:
  "analyze_content_blocks
     \<lparr>chars = [\<lparr>char_y0 = Some 100, char_text = Some '' The first line''\<rparr>,
               \<lparr>char_y0 = Some 95, char_text = Some ''and the second. ''\<rparr>],
      images = []\<rparr> =
   Inr [\<lparr>b_section = None, b_sub_section = None,
         payload = Paragraph ''The first line and the second.''\<rparr>] \<and>
   analyze_content_blocks
     \<lparr>chars = [\<lparr>char_y0 = Some 100, char_text = Some '' The first line''\<rparr>,
               \<lparr>char_y0 = Some 70, char_text = Some ''and the second. ''\<rparr>],
      images = []\<rparr> =
   Inr [\<lparr>b_section = Some ''The first line'', b_sub_section = Some ''The first line'',
         payload = Paragraph ''The first line''\<rparr>,
        \<lparr>b_section = None, b_sub_section = None,
         payload = Paragraph ''and the second.''\<rparr>]"
proof -
  have r: "round1 100 = 100" "round1 95 = 95" "round1 70 = 70"
    by code_simp+
  have d: "fsub 95 100 = - 5" "fsub 70 100 = - 30"
    by code_simp+
  have s: "strip '' The first line'' = ''The first line''"
    "strip ''and the second. '' = ''and the second.''"
    by code_simp+
  have f1: "flush_paragraph [] [''The first line'', ''and the second.''] =
              [\<lparr>b_section = None, b_sub_section = None,
                payload = Paragraph ''The first line and the second.''\<rparr>]"
    by code_simp
  have f2: "flush_paragraph (flush_paragraph [] [''The first line'']) [''and the second.''] =
              [\<lparr>b_section = Some ''The first line'', b_sub_section = Some ''The first line'',
                payload = Paragraph ''The first line''\<rparr>,
               \<lparr>b_section = None, b_sub_section = None,
                payload = Paragraph ''and the second.''\<rparr>]"
    by code_simp
  note near =
    paragraphs_split_at_float_gaps[of "\<lparr>chars = [], images = []\<rparr>" 100 100 95 95
      "'' The first line''" "''and the second. ''" "[]", THEN conjunct2]
  note far =
    paragraphs_split_at_float_gaps[of "\<lparr>chars = [], images = []\<rparr>" 100 100 70 70
      "'' The first line''" "''and the second. ''" "[]", THEN conjunct2]
  show ?thesis
    using near far by (simp add: r s d f1 f2)
qed

text \<open>
  C2, as stated: a flushed paragraph is emitted exactly when its cleaned text is longer
  than 10 characters. The code measures the joined text of the buffer stripped at its
  ends, before whitespace is collapsed: a buffer of 11 characters whose cleaned text has
  3 is emitted.
\<close>

theorem short_cleaned_paragraph_is_kept:
  "flush_paragraph [] [''a         b''] =
     [\<lparr>b_section = None, b_sub_section = None, payload = Paragraph ''a b''\<rparr>] \<and>
   clean_text (join_space [''a         b'']) = ''a b'' \<and>
   length (clean_text (join_space [''a         b''])) = 3 \<and>
   analyze_content_blocks
     \<lparr>chars = [\<lparr>char_y0 = Some 100, char_text = Some ''a         b''\<rparr>], images = []\<rparr> =
     Inr [\<lparr>b_section = None, b_sub_section = None, payload = Paragraph ''a b''\<rparr>]"
  by code_simp

text \<open>
  C2, amended: a flushed paragraph is emitted exactly when its joined text, stripped at
  both ends and not yet cleaned, is longer than 10 characters, and is dropped otherwise;
  the blocks of a page are those of its groups of lines that pass this test, in order.
  The cleaned text that is emitted is never longer than the stripped text, so a paragraph
  whose cleaned text is longer than 10 characters is emitted.
\<close>

theorem paragraph_kept_iff_trimmed_text_long:
  assumes "group_lines (chars pg) [] = Inr lines"
    and "nonempty_lines (sort_key (\<lambda>x. - fst x) lines) = Inr nl"
  shows "analyze_content_blocks pg =
           Inr (map paragraph_block
                  (filter (\<lambda>buf. 10 < length (strip (join_space buf)))
                     (map (map snd) (group_by_gap nl)))) \<and>
         (\<forall>buf. flush_paragraph [] buf =
                  (if 10 < length (strip (join_space buf)) then [paragraph_block buf] else [])) \<and>
         (\<forall>buf. length (clean_text (join_space buf)) \<le> length (strip (join_space buf)))"
proof -
  have "concat (map (\<lambda>g. flush_paragraph [] (map snd g)) gs) =
          map paragraph_block
            (filter (\<lambda>buf. 10 < length (strip (join_space buf))) (map (map snd) gs))"
    for gs :: "(rat \<times> string) list list"
    by (induction gs) (simp_all add: flush_paragraph_block)
  then show ?thesis
    using analyze_content_blocks_groups[OF assms]
    by (simp add: flush_paragraph_block length_clean_text)
qed

theorem paragraph_kept_iff_trimmed_text_long_witness:
  "analyze_content_blocks
     \<lparr>chars = [\<lparr>char_y0 = Some 100, char_text = Some ''a         b''\<rparr>,
               \<lparr>char_y0 = Some 50, char_text = Some ''too short''\<rparr>], images = []\<rparr> =
     Inr [\<lparr>b_section = None, b_sub_section = None, payload = Paragraph ''a b''\<rparr>] \<and>
   length (strip (join_space [''a         b''])) = 11 \<and>
   length (strip (join_space [''too short''])) = 9 \<and>
   length (clean_text (join_space [''a         b''])) \<le> length (strip (join_space [''a         b'']))"
proof -
  let ?c1 = "\<lparr>char_y0 = Some 100, char_text = Some ''a         b''\<rparr>"
  let ?c2 = "\<lparr>char_y0 = Some 50, char_text = Some ''too short''\<rparr>"
  have g: "group_lines (chars \<lparr>chars = [?c1, ?c2], images = []\<rparr>) [] =
             Inr [(100, [?c1]), (50, [?c2])]"
    by code_simp
  have n: "nonempty_lines (sort_key (\<lambda>x. - fst x) [(100, [?c1]), (50, [?c2])]) =
             Inr [(100, ''a         b''), (50, ''too short'')]"
    by code_simp
  have l1: "length (strip (join_space [''a         b''])) = 11" by code_simp
  have l2: "length (strip (join_space [''too short''])) = 9" by code_simp
  have p: "paragraph_block [''a         b''] =
             \<lparr>b_section = None, b_sub_section = None, payload = Paragraph ''a b''\<rparr>"
    by code_simp
  have c: "clean_text ''a         b'' = ''a b''" by code_simp
  have d: "fsub 50 100 = - 50" by code_simp
  show ?thesis
    using paragraph_kept_iff_trimmed_text_long[OF g n] l1 l2 p by (simp add: c d)
qed


section \<open>Properties of the page parser\<close>

lemma flush_paragraph_sections:
  assumes "\<forall>b\<in>set cb. b_section b \<noteq> Some []"
  shows "\<forall>b\<in>set (flush_paragraph cb buf). b_section b \<noteq> Some []"
proof -
  have p: "b_section (paragraph_block buf) \<noteq> Some []"
    by (simp add: paragraph_block_def extract_section_sound)
  have "flush_paragraph cb buf = cb \<or> flush_paragraph cb buf = cb @ [paragraph_block buf]"
    using flush_paragraph_append[of cb buf] by (simp add: flush_paragraph_block)
  then show ?thesis using assms p by auto
qed

lemma segment_step:
  assumes "segment ((y, cs) # ls) cb cp cy = Inr tb"
  shows "segment ls cb cp cy = Inr tb \<or>
         (\<exists>cp'. segment ls cb cp' (Some y) = Inr tb) \<or>
         (\<exists>cp'. segment ls (flush_paragraph cb cp) cp' (Some y) = Inr tb)"
proof -
  from assms obtain t where t: "join_texts cs = Inr t"
    by (auto split: sum.splits)
  show ?thesis
  proof (cases "strip t = []")
    case True
    then show ?thesis using assms t by simp
  next
    case ne: False
    show ?thesis
    proof (cases cy)
      case None
      then have "segment ls cb (cp @ [strip t]) (Some y) = Inr tb"
        using assms t ne by simp
      then show ?thesis by blast
    next
      case (Some y')
      show ?thesis
      proof (cases "20 < \<bar>fsub y y'\<bar> \<and> cp \<noteq> []")
        case True
        then have "segment ls (flush_paragraph cb cp) [strip t] (Some y) = Inr tb"
          using assms t ne Some by simp
        then show ?thesis by blast
      next
        case False
        then have "segment ls cb (cp @ [strip t]) (Some y) = Inr tb"
          using assms t ne Some by (cases "20 < \<bar>fsub y y'\<bar>") simp_all
        then show ?thesis by blast
      qed
    qed
  qed
qed

lemma segment_sections:
  "segment ls cb cp cy = Inr tb \<Longrightarrow> \<forall>b\<in>set cb. b_section b \<noteq> Some [] \<Longrightarrow>
     \<forall>b\<in>set tb. b_section b \<noteq> Some []"
proof (induction ls arbitrary: cb cp cy)
  case Nil
  then show ?case using flush_paragraph_sections[of cb cp] by (cases "cp = []") simp_all
next
  case (Cons l ls)
  obtain y cs where l: "l = (y, cs)" by (cases l)
  from segment_step[OF Cons.prems(1)[unfolded l]]
  consider (a) "segment ls cb cp cy = Inr tb"
    | (b) cp' where "segment ls cb cp' (Some y) = Inr tb"
    | (c) cp' where "segment ls (flush_paragraph cb cp) cp' (Some y) = Inr tb"
    by blast
  then show ?case
  proof cases
    case a
    then show ?thesis using Cons.IH Cons.prems(2) by blast
  next
    case b
    then show ?thesis using Cons.IH Cons.prems(2) by blast
  next
    case c
    then show ?thesis
      using Cons.IH flush_paragraph_sections[OF Cons.prems(2), of cp] by blast
  qed
qed

lemma analyze_sections:
  assumes "analyze_content_blocks pg = Inr tb"
  shows "\<forall>b\<in>set tb. b_section b \<noteq> Some []"
proof (cases "chars pg = []")
  case True
  then show ?thesis using assms by (simp add: analyze_content_blocks_def)
next
  case False
  then obtain lines where
    "segment (sort_key (\<lambda>x. - fst x) lines) [] [] None = Inr tb"
    using assms by (auto simp: analyze_content_blocks_def split: sum.splits)
  then show ?thesis by (rule segment_sections) simp
qed

lemma assign_context_find:
  "\<forall>b\<in>set bs. b_section b \<noteq> Some [] \<Longrightarrow>
     assign_context bs t =
       (case find (\<lambda>b. b_section b \<noteq> None) bs of
          None \<Rightarrow> t
        | Some b \<Rightarrow> t\<lparr>b_section := b_section b, b_sub_section := b_sub_section b\<rparr>)"
proof (induction bs)
  case Nil
  show ?case by simp
next
  case (Cons b bs)
  have "truthy (b_section b) \<longleftrightarrow> b_section b \<noteq> None"
    using Cons.prems by (cases "b_section b") auto
  then show ?case using Cons by simp
qed

lemma assign_context_nearest:
  assumes "\<forall>b\<in>set text_blocks. b_section b \<noteq> Some []"
    and "b_section t = None" and "b_sub_section t = None"
  shows "assign_context (rev text_blocks) t = nearest_heading text_blocks t"
proof -
  have u: "t\<lparr>b_section := None, b_sub_section := None\<rparr> = t"
    using assms(2,3) by simp
  have a: "assign_context (rev text_blocks) t =
             (case find (\<lambda>b. b_section b \<noteq> None) (rev text_blocks) of
                None \<Rightarrow> t
              | Some b \<Rightarrow> t\<lparr>b_section := b_section b, b_sub_section := b_sub_section b\<rparr>)"
    using assms(1) by (intro assign_context_find) simp
  show ?thesis
    unfolding a nearest_heading_def u ..
qed

lemma tables_loop_unset:
  "\<forall>t\<in>set acc. b_section t = None \<and> b_sub_section t = None \<Longrightarrow>
     \<forall>t\<in>set (tables_loop n i dfs acc). b_section t = None \<and> b_sub_section t = None"
  by (induction n i dfs acc rule: tables_loop.induct) (auto simp: Let_def)

lemma charts_loop_unset:
  "\<forall>t\<in>set acc. b_section t = None \<and> b_sub_section t = None \<Longrightarrow>
     \<forall>t\<in>set (charts_loop cs i imgs acc). b_section t = None \<and> b_sub_section t = None"
  by (induction cs i imgs acc rule: charts_loop.induct) (auto simp: Let_def)

lemma extract_tables_unset:
  "\<forall>t\<in>set (fst (extract_tables_from_page read_pdf n)). b_section t = None \<and> b_sub_section t = None"
  using tables_loop_unset[of "[]"]
  by (auto simp: extract_tables_from_page_def split: sum.splits)

lemma detect_charts_unset:
  "\<forall>t\<in>set (detect_charts_in_page pg). b_section t = None \<and> b_sub_section t = None"
  using charts_loop_unset[of "[]"] by (simp add: detect_charts_in_page_def)

text \<open>
  C1: on every page each table block and each chart block gets its heading context from
  its own scan of the page's paragraph blocks in reverse: it copies the section and the
  sub-section of the first paragraph met whose section is not null; where no paragraph
  of the page has a section, both fields stay null.
\<close>

theorem heading_context_propagation:
  assumes "analyze_content_blocks pg = Inr text_blocks"
  shows "snd (parse_page read_pdf page_num pg) =
           Inr \<lparr>page_number = page_num,
                content = text_blocks @
                  map (nearest_heading text_blocks) (fst (extract_tables_from_page read_pdf page_num)) @
                  map (nearest_heading text_blocks) (detect_charts_in_page pg)\<rparr>"
proof -
  note s = analyze_sections[OF assms]
  obtain tables lg where e: "extract_tables_from_page read_pdf page_num = (tables, lg)"
    by (cases "extract_tables_from_page read_pdf page_num")
  have t: "map (assign_context (rev text_blocks)) tables =
           map (nearest_heading text_blocks) tables"
    using extract_tables_unset[of read_pdf page_num] assign_context_nearest[OF s]
    by (intro map_cong) (simp_all add: e)
  have c: "map (assign_context (rev text_blocks)) (detect_charts_in_page pg) =
           map (nearest_heading text_blocks) (detect_charts_in_page pg)"
    using detect_charts_unset[of pg] assign_context_nearest[OF s]
    by (intro map_cong) simp_all
  show ?thesis
    by (simp add: parse_page_def assms e t c)
qed


theorem heading_context_propagation_witness:
  "snd (parse_page (\<lambda>n. Inr [[[''x'', ''y'']]]) 1
     \<lparr>chars = [\<lparr>char_y0 = Some 700, char_text = Some ''INTRODUCTION''\<rparr>,
               \<lparr>char_y0 = Some 600, char_text = Some ''some words here.''\<rparr>,
               \<lparr>char_y0 = Some 500, char_text = Some ''CONCLUSIONS''\<rparr>],
      images = [\<lparr>img_width = Some 200, img_height = Some 150, img_x0 = Some 0,
                 img_y0 = Some 0, img_x1 = Some 200, img_y1 = Some 150\<rparr>]\<rparr>) =
   Inr \<lparr>page_number = 1,
        content =
          [\<lparr>b_section = Some ''INTRODUCTION'', b_sub_section = None,
            payload = Paragraph ''INTRODUCTION''\<rparr>,
           \<lparr>b_section = None, b_sub_section = None,
            payload = Paragraph ''some words here.''\<rparr>,
           \<lparr>b_section = Some ''CONCLUSIONS'', b_sub_section = None,
            payload = Paragraph ''CONCLUSIONS''\<rparr>,
           \<lparr>b_section = Some ''CONCLUSIONS'', b_sub_section = None,
            payload = Table ''Table 1 from page 1'' [[''x'', ''y'']]\<rparr>,
           \<lparr>b_section = Some ''CONCLUSIONS'', b_sub_section = None,
            payload = Chart ''Chart/Image 1'' [] 200 150\<rparr>]\<rparr>"
proof -
  let ?pg = "\<lparr>chars = [\<lparr>char_y0 = Some 700, char_text = Some ''INTRODUCTION''\<rparr>,
               \<lparr>char_y0 = Some 600, char_text = Some ''some words here.''\<rparr>,
               \<lparr>char_y0 = Some 500, char_text = Some ''CONCLUSIONS''\<rparr>],
      images = [\<lparr>img_width = Some 200, img_height = Some 150, img_x0 = Some 0,
                 img_y0 = Some 0, img_x1 = Some 200, img_y1 = Some 150\<rparr>]\<rparr>"
  let ?tb = "[\<lparr>b_section = Some ''INTRODUCTION'', b_sub_section = None,
            payload = Paragraph ''INTRODUCTION''\<rparr>,
           \<lparr>b_section = None, b_sub_section = None,
            payload = Paragraph ''some words here.''\<rparr>,
           \<lparr>b_section = Some ''CONCLUSIONS'', b_sub_section = None,
            payload = Paragraph ''CONCLUSIONS''\<rparr>]"
  have a: "analyze_content_blocks ?pg = Inr ?tb"
    by code_simp
  have t: "map (nearest_heading ?tb) (fst (extract_tables_from_page (\<lambda>n. Inr [[[''x'', ''y'']]]) 1)) =
             [\<lparr>b_section = Some ''CONCLUSIONS'', b_sub_section = None,
               payload = Table ''Table 1 from page 1'' [[''x'', ''y'']]\<rparr>]"
    by code_simp
  have c: "map (nearest_heading ?tb) (detect_charts_in_page ?pg) =
             [\<lparr>b_section = Some ''CONCLUSIONS'', b_sub_section = None,
               payload = Chart ''Chart/Image 1'' [] 200 150\<rparr>]"
    by code_simp
  show ?thesis
    using heading_context_propagation[OF a, of "\<lambda>n. Inr [[[''x'', ''y'']]]" 1]
    unfolding t c by simp
qed

section \<open>Properties of the chart detector\<close>

lemma nearby_text_caption: "nearby_text y cs = caption_near y cs"
  by (induction cs) (simp_all add: caption_near_def Let_def)

lemma charts_loop_map:
  "charts_loop cs i imgs acc =
     acc @ map (chart_block cs) (filter (\<lambda>x. chart_sized (snd x)) (enumerate i imgs))"
proof (induction cs i imgs acc rule: charts_loop.induct)
  case (1 cs i charts)
  show ?case by simp
next
  case (2 cs i img imgs charts)
  show ?case
  proof (cases "chart_sized img")
    case True
    then show ?thesis using 2(1)
      by (simp add: chart_sized_def chart_block_def nearby_text_caption Let_def)
  next
    case False
    then show ?thesis using 2(2)
      by (auto simp: chart_sized_def Let_def)
  qed
qed

text \<open>
  C8, as stated: the caption of an image of chart size is made of the characters whose
  \<open>y0\<close> is within 50 units of the bottom edge of the image, with larger \<open>y\<close> higher on
  the page. The code measures from \<open>y1\<close>, the upper edge of the box: for an image from 0
  to 200 the character at 190 is taken and the character at 10, near the bottom edge, is
  not.
\<close>

theorem caption_taken_at_top_edge:
  "detect_charts_in_page
     \<lparr>chars = [\<lparr>char_y0 = Some 10, char_text = Some ''a''\<rparr>,
               \<lparr>char_y0 = Some 190, char_text = Some ''b''\<rparr>],
      images = [\<lparr>img_width = Some 200, img_height = Some 200, img_x0 = Some 0,
                 img_y0 = Some 0, img_x1 = Some 200, img_y1 = Some 200\<rparr>]\<rparr> =
     [\<lparr>b_section = None, b_sub_section = None,
       payload = Chart ''Chart/Image 1 - b...'' [] 200 200\<rparr>] \<and>
   bottom_edge \<lparr>img_width = Some 200, img_height = Some 200, img_x0 = Some 0,
                img_y0 = Some 0, img_x1 = Some 200, img_y1 = Some 200\<rparr> = 0 \<and>
   caption_near 0 [\<lparr>char_y0 = Some 10, char_text = Some ''a''\<rparr>,
                   \<lparr>char_y0 = Some 190, char_text = Some ''b''\<rparr>] = ''a''"
  by code_simp

text \<open>
  C8, amended: for every image wider and higher than 100, the caption is the
  concatenation of exactly the texts of the page characters for which the program's
  double-precision \<open>abs(text_y - y1)\<close> is less than 50, where \<open>text_y\<close> is the \<open>y0\<close> of the
  character and \<open>y1\<close> that of the image (its top edge with larger \<open>y\<close> higher on the page;
  the height where \<open>y1\<close> is absent); the description is the label with the index of the
  image, followed, when the caption is not empty, by its first 100 characters and an
  ellipsis. A character at 50.3 is not taken for an image with \<open>y1\<close> at 0.3: the
  difference is computed as 50.0.
\<close>

theorem chart_caption_near_y1:
  "detect_charts_in_page pg =
     map (chart_block (chars pg))
       (filter (\<lambda>x. chart_sized (snd x)) (enumerate 0 (images pg)))"
proof -
  have "charts_loop (chars pg) 0 (images pg) [] =
          [] @ map (chart_block (chars pg))
                 (filter (\<lambda>x. chart_sized (snd x)) (enumerate 0 (images pg)))"
    by (rule charts_loop_map)
  then show ?thesis by (simp add: detect_charts_in_page_def)
qed

theorem chart_caption_near_y1_witness:
  "detect_charts_in_page
     \<lparr>chars = [\<lparr>char_y0 = Some 10, char_text = Some ''a''\<rparr>,
               \<lparr>char_y0 = Some 190, char_text = Some ''b''\<rparr>],
      images = [\<lparr>img_width = Some 50, img_height = Some 200, img_x0 = Some 0,
                 img_y0 = Some 0, img_x1 = Some 50, img_y1 = Some 200\<rparr>,
                \<lparr>img_width = Some 150, img_height = Some 150, img_x0 = Some 0,
                 img_y0 = Some 400, img_x1 = Some 150, img_y1 = Some 550\<rparr>,
                \<lparr>img_width = Some 200, img_height = Some 200, img_x0 = Some 0,
                 img_y0 = Some 0, img_x1 = Some 200, img_y1 = Some 200\<rparr>]\<rparr> =
     [\<lparr>b_section = None, b_sub_section = None,
       payload = Chart ''Chart/Image 2'' [] 150 150\<rparr>,
      \<lparr>b_section = None, b_sub_section = None,
       payload = Chart ''Chart/Image 3 - b...'' [] 200 200\<rparr>] \<and>
   detect_charts_in_page
     \<lparr>chars = [\<lparr>char_y0 = Some (float_literal (503 / 10)), char_text = Some ''a''\<rparr>],
      images = [\<lparr>img_width = Some 200, img_height = Some 200, img_x0 = Some 0,
                 img_y0 = Some (float_literal (- 1997 / 10)), img_x1 = Some 200,
                 img_y1 = Some (float_literal (3 / 10))\<rparr>]\<rparr> =
     [\<lparr>b_section = None, b_sub_section = None,
       payload = Chart ''Chart/Image 1'' [] 200 200\<rparr>] \<and>
   fsub (float_literal (503 / 10)) (float_literal (3 / 10)) = 50 \<and>
   float_literal (503 / 10) - float_literal (3 / 10) < 50"
proof -
  let ?cs = "[\<lparr>char_y0 = Some 10, char_text = Some ''a''\<rparr>,
               \<lparr>char_y0 = Some 190, char_text = Some ''b''\<rparr>]"
  let ?imgs = "[\<lparr>img_width = Some 50, img_height = Some 200, img_x0 = Some 0,
                 img_y0 = Some 0, img_x1 = Some 50, img_y1 = Some 200\<rparr>,
                \<lparr>img_width = Some 150, img_height = Some 150, img_x0 = Some 0,
                 img_y0 = Some 400, img_x1 = Some 150, img_y1 = Some 550\<rparr>,
                \<lparr>img_width = Some 200, img_height = Some 200, img_x0 = Some 0,
                 img_y0 = Some 0, img_x1 = Some 200, img_y1 = Some 200\<rparr>]"
  let ?cs' = "[\<lparr>char_y0 = Some (float_literal (503 / 10)), char_text = Some ''a''\<rparr>]"
  let ?imgs' = "[\<lparr>img_width = Some 200, img_height = Some 200, img_x0 = Some 0,
                 img_y0 = Some (float_literal (- 1997 / 10)), img_x1 = Some 200,
                 img_y1 = Some (float_literal (3 / 10))\<rparr>]"
  have one: "map (chart_block (chars \<lparr>chars = ?cs, images = ?imgs\<rparr>))
          (filter (\<lambda>x. chart_sized (snd x)) (enumerate 0 (images \<lparr>chars = ?cs, images = ?imgs\<rparr>))) =
        [\<lparr>b_section = None, b_sub_section = None,
          payload = Chart ''Chart/Image 2'' [] 150 150\<rparr>,
         \<lparr>b_section = None, b_sub_section = None,
          payload = Chart ''Chart/Image 3 - b...'' [] 200 200\<rparr>]"
    by code_simp
  have two: "map (chart_block (chars \<lparr>chars = ?cs', images = ?imgs'\<rparr>))
          (filter (\<lambda>x. chart_sized (snd x)) (enumerate 0 (images \<lparr>chars = ?cs', images = ?imgs'\<rparr>))) =
        [\<lparr>b_section = None, b_sub_section = None,
          payload = Chart ''Chart/Image 1'' [] 200 200\<rparr>]"
    by code_simp
  have d: "fsub (float_literal (503 / 10)) (float_literal (3 / 10)) = 50"
    by code_simp
  have e: "float_literal (503 / 10) - float_literal (3 / 10) < 50"
    by code_simp
  show ?thesis
    using chart_caption_near_y1[of "\<lparr>chars = ?cs, images = ?imgs\<rparr>"]
          chart_caption_near_y1[of "\<lparr>chars = ?cs', images = ?imgs'\<rparr>"] d e
    unfolding one two by simp
qed

section \<open>Properties of the table extractor\<close>

lemma parse_page_ok:
  assumes "analyze_content_blocks pg = Inr tb"
  shows "\<exists>lg r. parse_page read_pdf n pg = (lg, Inr r) \<and> page_number r = n"
proof -
  obtain tables lg where e: "extract_tables_from_page read_pdf n = (tables, lg)"
    by (cases "extract_tables_from_page read_pdf n")
  show ?thesis by (simp add: parse_page_def assms e)
qed

lemma parse_pages_total:
  "\<forall>pg\<in>set pgs. \<exists>tb. analyze_content_blocks pg = Inr tb \<Longrightarrow>
     \<exists>res. snd (parse_pages read_pdf n pgs acc) = Inr (acc @ res) \<and>
           map page_number res = [n..<n + length pgs]"
proof (induction pgs arbitrary: n acc)
  case Nil
  show ?case by simp
next
  case (Cons pg pgs)
  from Cons.prems obtain tb where "analyze_content_blocks pg = Inr tb" by auto
  from parse_page_ok[OF this, of read_pdf n] obtain lg r where
    p: "parse_page read_pdf n pg = (lg, Inr r)" and r: "page_number r = n"
    by blast
  from Cons.prems have "\<forall>pg\<in>set pgs. \<exists>tb. analyze_content_blocks pg = Inr tb" by simp
  from Cons.IH[OF this, of "Suc n" "acc @ [r]"] obtain res where
    res: "snd (parse_pages read_pdf (Suc n) pgs (acc @ [r])) = Inr ((acc @ [r]) @ res)"
    and nums: "map page_number res = [Suc n..<Suc n + length pgs]"
    by blast
  have "snd (parse_pages read_pdf n (pg # pgs) acc) = Inr (acc @ (r # res))"
    using p res by (cases "parse_pages read_pdf (Suc n) pgs (acc @ [r])") simp
  moreover have "map page_number (r # res) = [n..<n + length (pg # pgs)]"
    using r nums by (subst upt_rec) simp
  ultimately show ?case by blast
qed

text \<open>
  C9: a failure of the external table extraction on a page does not leave the table
  extractor: the call gives an empty table list and one warning, the page is completed
  with its paragraphs and charts, and the pages behind it are parsed: whatever the
  service does, a document whose pages all have well-formed characters yields one
  result page for every page.
\<close>

theorem table_failure_is_contained:
  assumes "read_pdf page_num = Inl e"
  shows "extract_tables_from_page read_pdf page_num =
           ([], [(WARNING, ''Could not extract tables from page '' @ str_nat page_num @ '': '' @ e)]) \<and>
         (\<forall>text_blocks. analyze_content_blocks pg = Inr text_blocks \<longrightarrow>
            parse_page read_pdf page_num pg =
              ([(INFO, ''Processing page '' @ str_nat page_num),
                (WARNING, ''Could not extract tables from page '' @ str_nat page_num @ '': '' @ e)],
               Inr \<lparr>page_number = page_num,
                    content = text_blocks @
                      map (assign_context (rev text_blocks)) (detect_charts_in_page pg)\<rparr>)) \<and>
         ((\<forall>p\<in>set pages. \<exists>tb. analyze_content_blocks p = Inr tb) \<longrightarrow>
            (\<exists>result. snd (parse_pdf pdf_path True read_pdf pages) = Inr result \<and>
                      map page_number result = [1..<Suc (length pages)]))"
proof -
  have x: "extract_tables_from_page read_pdf page_num =
           ([], [(WARNING, ''Could not extract tables from page '' @ str_nat page_num @ '': '' @ e)])"
    using assms by (simp add: extract_tables_from_page_def)
  have y: "parse_page read_pdf page_num pg =
              ([(INFO, ''Processing page '' @ str_nat page_num),
                (WARNING, ''Could not extract tables from page '' @ str_nat page_num @ '': '' @ e)],
               Inr \<lparr>page_number = page_num,
                    content = text_blocks @
                      map (assign_context (rev text_blocks)) (detect_charts_in_page pg)\<rparr>)"
    if "analyze_content_blocks pg = Inr text_blocks" for text_blocks
    using that by (simp add: parse_page_def x)
  have z: "\<exists>result. snd (parse_pdf pdf_path True read_pdf pages) = Inr result \<and>
                    map page_number result = [1..<Suc (length pages)]"
    if a: "\<forall>p\<in>set pages. \<exists>tb. analyze_content_blocks p = Inr tb"
  proof -
    from parse_pages_total[OF a, of read_pdf 1 "[]"] obtain res where
      "snd (parse_pages read_pdf 1 pages []) = Inr res"
      "map page_number res = [1..<Suc (length pages)]"
      by auto
    then show ?thesis
      by (cases "parse_pages read_pdf 1 pages []") (auto simp: parse_pdf_def)
  qed
  show ?thesis using x y z by blast
qed

theorem table_failure_is_contained_witness:
  "extract_tables_from_page (\<lambda>n. if n = 1 then Inl ''boom'' else Inr [[[''x'', ''y'']]]) 1 =
     ([], [(WARNING, ''Could not extract tables from page 1: boom'')]) \<and>
   parse_pdf ''doc.pdf'' True (\<lambda>n. if n = 1 then Inl ''boom'' else Inr [[[''x'', ''y'']]])
     [\<lparr>chars = [\<lparr>char_y0 = Some 700, char_text = Some ''INTRODUCTION''\<rparr>], images = []\<rparr>,
      \<lparr>chars = [\<lparr>char_y0 = Some 700, char_text = Some ''CONCLUSIONS''\<rparr>], images = []\<rparr>] =
     ([(INFO, ''Parsing PDF: doc.pdf''), (INFO, ''Processing page 1''),
       (WARNING, ''Could not extract tables from page 1: boom''),
       (INFO, ''Processing page 2''), (INFO, ''Successfully parsed 2 pages'')],
      Inr [\<lparr>page_number = 1,
            content = [\<lparr>b_section = Some ''INTRODUCTION'', b_sub_section = None,
                        payload = Paragraph ''INTRODUCTION''\<rparr>]\<rparr>,
           \<lparr>page_number = 2,
            content = [\<lparr>b_section = Some ''CONCLUSIONS'', b_sub_section = None,
                        payload = Paragraph ''CONCLUSIONS''\<rparr>,
                       \<lparr>b_section = Some ''CONCLUSIONS'', b_sub_section = None,
                        payload = Table ''Table 1 from page 2'' [[''x'', ''y'']]\<rparr>]\<rparr>])"
proof -
  let ?rp = "\<lambda>n::nat. if n = 1 then Inl ''boom'' else (Inr [[[''x'', ''y'']]] :: string + dataframe list)"
  have h: "?rp 1 = Inl ''boom''" by simp
  have s: "str_nat 1 = ''1''" "str_nat (Suc 0) = ''1''" by code_simp+
  have p: "parse_pdf ''doc.pdf'' True ?rp
     [\<lparr>chars = [\<lparr>char_y0 = Some 700, char_text = Some ''INTRODUCTION''\<rparr>], images = []\<rparr>,
      \<lparr>chars = [\<lparr>char_y0 = Some 700, char_text = Some ''CONCLUSIONS''\<rparr>], images = []\<rparr>] =
     ([(INFO, ''Parsing PDF: doc.pdf''), (INFO, ''Processing page 1''),
       (WARNING, ''Could not extract tables from page 1: boom''),
       (INFO, ''Processing page 2''), (INFO, ''Successfully parsed 2 pages'')],
      Inr [\<lparr>page_number = 1,
            content = [\<lparr>b_section = Some ''INTRODUCTION'', b_sub_section = None,
                        payload = Paragraph ''INTRODUCTION''\<rparr>]\<rparr>,
           \<lparr>page_number = 2,
            content = [\<lparr>b_section = Some ''CONCLUSIONS'', b_sub_section = None,
                        payload = Paragraph ''CONCLUSIONS''\<rparr>,
                       \<lparr>b_section = Some ''CONCLUSIONS'', b_sub_section = None,
                        payload = Table ''Table 1 from page 2'' [[''x'', ''y'']]\<rparr>]\<rparr>])"
    by code_simp
  from table_failure_is_contained[of ?rp 1 "''boom''", OF h]
  have "extract_tables_from_page ?rp 1 =
          ([], [(WARNING, ''Could not extract tables from page '' @ str_nat 1 @ '': '' @ ''boom'')])"
    by blast
  then show ?thesis using p by (simp add: s)
qed

end
